theory Spec2Isabelle
  imports Main
begin

section \<open>Strings of the JavaScript runtime\<close>

text \<open>
  The service in \<^verbatim>\<open>src/server/osint.js\<close> works on JavaScript strings. A string is
  modelled as a HOL \<^typ>\<open>string\<close>: one \<^typ>\<open>char\<close> is one code unit, so the model covers
  the strings whose code units lie in the range 0 to 255 (ASCII and Latin-1).
\<close>

definition code :: "char \<Rightarrow> nat" where
  "code c = of_char c"

text \<open>White space of \<^verbatim>\<open>String.prototype.trim\<close> and of the regular expression class
  \<^verbatim>\<open>\s\<close>: TAB, LF, VT, FF, CR, SPACE and NO-BREAK SPACE.\<close>

definition js_whitespace :: "char \<Rightarrow> bool" where
  "js_whitespace c \<longleftrightarrow> code c \<in> {9, 10, 11, 12, 13, 32, 160}"

definition js_trim :: "string \<Rightarrow> string" where
  "js_trim s = rev (dropWhile js_whitespace (rev (dropWhile js_whitespace s)))"

text \<open>\<^verbatim>\<open>String.prototype.toLowerCase\<close> on one code unit: the letters A to Z and the
  Latin-1 capitals 0xC0 to 0xDE (the multiplication sign 0xD7 apart) move up by 32.\<close>

definition js_lower_char :: "char \<Rightarrow> char" where
  "js_lower_char c =
     (if (65 \<le> code c \<and> code c \<le> 90) \<or> (192 \<le> code c \<and> code c \<le> 222 \<and> code c \<noteq> 215)
      then char_of (code c + 32) else c)"

definition toLowerCase :: "string \<Rightarrow> string" where
  "toLowerCase s = map js_lower_char s"

definition startsWith :: "string \<Rightarrow> string \<Rightarrow> bool" where
  "startsWith s p \<longleftrightarrow> take (length p) s = p"

definition endsWith :: "string \<Rightarrow> string \<Rightarrow> bool" where
  "endsWith s p \<longleftrightarrow> length p \<le> length s \<and> drop (length s - length p) s = p"

text \<open>Case-insensitive match of an ASCII pattern at the start of a string, as a regular
  expression with the flag \<^verbatim>\<open>i\<close> (and without \<^verbatim>\<open>u\<close>) does it: a code unit above 127
  never matches an ASCII one.\<close>

definition ascii_lower :: "char \<Rightarrow> char" where
  "ascii_lower c = (if 65 \<le> code c \<and> code c \<le> 90 then char_of (code c + 32) else c)"

definition startsWith_ci :: "string \<Rightarrow> string \<Rightarrow> bool" where
  "startsWith_ci s p \<longleftrightarrow> map ascii_lower (take (length p) s) = map ascii_lower p"

text \<open>\<^verbatim>\<open>String.prototype.split\<close> with a non-empty separator string.\<close>

fun split_acc :: "string \<Rightarrow> string \<Rightarrow> string \<Rightarrow> string list" where
  "split_acc sep acc [] = [rev acc]"
| "split_acc sep acc (c # cs) =
     (if sep \<noteq> [] \<and> take (length sep) (c # cs) = sep
      then rev acc # split_acc sep [] (drop (length sep) (c # cs))
      else split_acc sep (c # acc) cs)"

definition split :: "string \<Rightarrow> string \<Rightarrow> string list" where
  "split s sep = split_acc sep [] s"

text \<open>Decimal rendering of a number, as template literals and the URL serializer do.\<close>

fun digits_acc :: "nat \<Rightarrow> nat \<Rightarrow> string \<Rightarrow> string" where
  "digits_acc 0 n acc = acc"
| "digits_acc (Suc fuel) n acc =
     (if n < 10 then char_of (48 + n) # acc
      else digits_acc fuel (n div 10) (char_of (48 + n mod 10) # acc))"

definition string_of_nat :: "nat \<Rightarrow> string" where
  "string_of_nat n = digits_acc (Suc n) n []"

definition is_digit :: "char \<Rightarrow> bool" where
  "is_digit c \<longleftrightarrow> 48 \<le> code c \<and> code c \<le> 57"

definition nat_of_digits :: "string \<Rightarrow> nat" where
  "nat_of_digits s = foldl (\<lambda>n c. 10 * n + (code c - 48)) 0 s"

section \<open>The URL class of the platform\<close>

text \<open>
  \<^verbatim>\<open>new URL(s)\<close>, \<^verbatim>\<open>url.hash = ''\<close>, \<^verbatim>\<open>url.toString()\<close> and \<^verbatim>\<open>url.hostname\<close> belong
  to the runtime, not to the repository. They are modelled after the URL Standard, for
  the inputs the service gives them: every string that reaches \<^verbatim>\<open>new URL\<close> starts with
  \<^verbatim>\<open>http://\<close> or \<^verbatim>\<open>https://\<close> in some letter case. The host parser of the standard
  (IDNA, IPv4 and IPv6 literals) is a parameter \<open>hp\<close> of the model: it maps the host
  buffer to the serialized host, or fails.
\<close>

type_synonym host_parser = "string \<Rightarrow> string option"

record URL =
  scheme :: string
  username :: string
  password :: string
  host :: string
  port :: "nat option"
  path :: "string list"
  query :: "string option"
  fragment :: "string option"

subsection \<open>Percent-encoding\<close>

definition hex_digit :: "nat \<Rightarrow> char" where
  "hex_digit n = (if n < 10 then char_of (48 + n) else char_of (55 + n))"

definition percent_byte :: "nat \<Rightarrow> string" where
  "percent_byte b = [CHR ''%'', hex_digit (b div 16), hex_digit (b mod 16)]"

text \<open>UTF-8 bytes of a code unit below 256.\<close>

definition utf8 :: "char \<Rightarrow> nat list" where
  "utf8 c = (if code c < 128 then [code c]
             else if code c < 192 then [194, code c] else [195, code c - 64])"

definition c0_control_set :: "char \<Rightarrow> bool" where
  "c0_control_set c \<longleftrightarrow> code c < 32 \<or> 126 < code c"

definition fragment_set :: "char \<Rightarrow> bool" where
  "fragment_set c \<longleftrightarrow> c0_control_set c \<or> c \<in> set '' \"<>`''"

definition query_set :: "char \<Rightarrow> bool" where
  "query_set c \<longleftrightarrow> c0_control_set c \<or> c \<in> set '' \"#<>''"

definition special_query_set :: "char \<Rightarrow> bool" where
  "special_query_set c \<longleftrightarrow> query_set c \<or> c = CHR 0x27"

definition path_set :: "char \<Rightarrow> bool" where
  "path_set c \<longleftrightarrow> query_set c \<or> c \<in> set ''?^`{}''"

definition userinfo_set :: "char \<Rightarrow> bool" where
  "userinfo_set c \<longleftrightarrow> path_set c \<or> c \<in> set ''/:;=@[]|'' \<or> c = CHR 0x5C"

definition percent_encode :: "(char \<Rightarrow> bool) \<Rightarrow> string \<Rightarrow> string" where
  "percent_encode in_set s =
     concat (map (\<lambda>c. if in_set c then concat (map percent_byte (utf8 c)) else [c]) s)"

subsection \<open>The parser, for the schemes http and https\<close>

definition is_c0_or_space :: "char \<Rightarrow> bool" where
  "is_c0_or_space c \<longleftrightarrow> code c \<le> 32"

definition is_tab_or_newline :: "char \<Rightarrow> bool" where
  "is_tab_or_newline c \<longleftrightarrow> code c \<in> {9, 10, 13}"

text \<open>The parser first strips leading and trailing C0 controls and spaces, then removes
  every tab and newline.\<close>

definition url_preprocess :: "string \<Rightarrow> string" where
  "url_preprocess s =
     filter (\<lambda>c. \<not> is_tab_or_newline c)
       (rev (dropWhile is_c0_or_space (rev (dropWhile is_c0_or_space s))))"

definition is_alpha :: "char \<Rightarrow> bool" where
  "is_alpha c \<longleftrightarrow> (65 \<le> code c \<and> code c \<le> 90) \<or> (97 \<le> code c \<and> code c \<le> 122)"

definition is_scheme_char :: "char \<Rightarrow> bool" where
  "is_scheme_char c \<longleftrightarrow> is_alpha c \<or> is_digit c \<or> c \<in> set ''+-.''"

text \<open>Scheme start state and scheme state: letters, digits, plus, minus and dot up to the
  first colon, lowercased. Without a colon, or with another character before it, there is
  no scheme, and without a base URL that is a failure.\<close>

definition parse_scheme :: "string \<Rightarrow> (string \<times> string) option" where
  "parse_scheme s =
     (let a = takeWhile (\<lambda>c. c \<noteq> CHR '':'') s; b = dropWhile (\<lambda>c. c \<noteq> CHR '':'') s
      in if b = [] \<or> a = [] \<or> \<not> is_alpha (hd a) \<or> \<not> list_all is_scheme_char a then None
         else Some (map ascii_lower a, tl b))"

definition is_slash :: "char \<Rightarrow> bool" where
  "is_slash c \<longleftrightarrow> c = CHR ''/'' \<or> c = CHR 0x5C"

text \<open>The authority of a special URL ends at a slash, a backslash, a question mark, a number
  sign or the end of the input.\<close>

definition is_authority_end :: "char \<Rightarrow> bool" where
  "is_authority_end c \<longleftrightarrow> is_slash c \<or> c = CHR ''?'' \<or> c = CHR ''#''"

text \<open>Authority state. Everything before the last at-sign is the credentials: the user name
  up to the first colon and the password after it, percent-encoded; an at-sign inside the
  credentials is encoded too. The result is the user name, the password, and the host and
  port after the last at-sign, or \<open>None\<close> when an at-sign is followed by nothing.\<close>

definition split_credentials :: "string \<Rightarrow> (string \<times> string \<times> string) option" where
  "split_credentials auth =
     (if CHR ''@'' \<in> set auth then
        (let hostport = rev (takeWhile (\<lambda>c. c \<noteq> CHR ''@'') (rev auth));
             creds = rev (tl (dropWhile (\<lambda>c. c \<noteq> CHR ''@'') (rev auth)))
         in if hostport = [] then None
            else Some (percent_encode userinfo_set (takeWhile (\<lambda>c. c \<noteq> CHR '':'') creds),
                       percent_encode userinfo_set (drop 1 (dropWhile (\<lambda>c. c \<noteq> CHR '':'') creds)),
                       hostport))
      else Some ([], [], auth))"

text \<open>Host state: the host buffer runs to the first colon outside square brackets.\<close>

fun host_split :: "bool \<Rightarrow> string \<Rightarrow> string \<times> string option" where
  "host_split inside [] = ([], None)"
| "host_split inside (c # cs) =
     (if c = CHR '':'' \<and> \<not> inside then ([], Some cs)
      else (let inside' = (if c = CHR ''['' then True else if c = CHR '']'' then False else inside);
                r = host_split inside' cs
            in (c # fst r, snd r)))"

definition default_port :: "string \<Rightarrow> nat option" where
  "default_port sch = (if sch = ''http'' then Some 80 else if sch = ''https'' then Some 443 else None)"

text \<open>Port state: decimal digits only, at most 65535; the default port of the scheme is
  dropped. The outer \<open>None\<close> is a failure.\<close>

definition parse_port :: "string \<Rightarrow> string \<Rightarrow> nat option option" where
  "parse_port sch s =
     (if \<not> list_all is_digit s then None
      else if s = [] then Some None
      else if 65535 < nat_of_digits s then None
      else if Some (nat_of_digits s) = default_port sch then Some None
      else Some (Some (nat_of_digits s)))"

text \<open>Path state. The path is cut at slashes and backslashes; a segment \<^verbatim>\<open>.\<close> is dropped, a
  segment \<^verbatim>\<open>..\<close> removes the segment before it, and either leaves an empty segment behind
  when it is the last one.\<close>

fun split_slashes :: "string \<Rightarrow> string \<Rightarrow> string list" where
  "split_slashes acc [] = [rev acc]"
| "split_slashes acc (c # cs) =
     (if is_slash c then rev acc # split_slashes [] cs else split_slashes (c # acc) cs)"

definition is_single_dot :: "string \<Rightarrow> bool" where
  "is_single_dot s \<longleftrightarrow> map ascii_lower s \<in> {''.'', ''%2e''}"

definition is_double_dot :: "string \<Rightarrow> bool" where
  "is_double_dot s \<longleftrightarrow> map ascii_lower s \<in> {''..'', ''.%2e'', ''%2e.'', ''%2e%2e''}"

fun path_segments :: "string list \<Rightarrow> string list \<Rightarrow> string list" where
  "path_segments p [] = p"
| "path_segments p (s # ss) =
     (let b = percent_encode path_set s in
      if is_double_dot b then path_segments (if ss = [] then butlast p @ [[]] else butlast p) ss
      else if is_single_dot b then path_segments (if ss = [] then p @ [[]] else p) ss
      else path_segments (p @ [b]) ss)"

definition parse_path :: "string \<Rightarrow> string list" where
  "parse_path s =
     path_segments [] (split_slashes [] (if s \<noteq> [] \<and> is_slash (hd s) then tl s else s))"

text \<open>Query state and fragment state.\<close>

definition parse_query :: "string \<Rightarrow> string option" where
  "parse_query s =
     (if s \<noteq> [] \<and> hd s = CHR ''?''
      then Some (percent_encode special_query_set (takeWhile (\<lambda>c. c \<noteq> CHR ''#'') (tl s)))
      else None)"

definition parse_fragment :: "string \<Rightarrow> string option" where
  "parse_fragment s =
     (let r = dropWhile (\<lambda>c. c \<noteq> CHR ''#'') s
      in if r = [] then None else Some (percent_encode fragment_set (tl r)))"

text \<open>\<^verbatim>\<open>new URL(s)\<close>: \<open>None\<close> is the \<^verbatim>\<open>TypeError\<close> it throws. After the scheme, any run of
  slashes and backslashes is skipped; then come authority, host, port, path, query and
  fragment. A scheme other than http and https is outside this model.\<close>

definition new_URL :: "host_parser \<Rightarrow> string \<Rightarrow> URL option" where
  "new_URL hp s =
     (case parse_scheme (url_preprocess s) of
        None \<Rightarrow> None
      | Some (sch, r) \<Rightarrow>
          if sch \<noteq> ''http'' \<and> sch \<noteq> ''https'' then None
          else
            (let r1 = dropWhile is_slash r;
                 auth = takeWhile (\<lambda>c. \<not> is_authority_end c) r1;
                 rest = dropWhile (\<lambda>c. \<not> is_authority_end c) r1
             in case split_credentials auth of
                  None \<Rightarrow> None
                | Some (user, pass, hostport) \<Rightarrow>
                    (let hs = host_split False hostport in
                     if fst hs = [] then None
                     else case hp (fst hs) of
                            None \<Rightarrow> None
                          | Some h \<Rightarrow>
                              (case parse_port sch (case snd hs of None \<Rightarrow> [] | Some p \<Rightarrow> p) of
                                 None \<Rightarrow> None
                               | Some prt \<Rightarrow>
                                   Some \<lparr>scheme = sch, username = user, password = pass,
                                         host = h, port = prt,
                                         path = parse_path (takeWhile (\<lambda>c. c \<noteq> CHR ''?'' \<and> c \<noteq> CHR ''#'') rest),
                                         query = parse_query (dropWhile (\<lambda>c. c \<noteq> CHR ''?'' \<and> c \<noteq> CHR ''#'') rest),
                                         fragment = parse_fragment rest\<rparr>))))"

subsection \<open>The serializer and the getters\<close>

definition serialize_path :: "string list \<Rightarrow> string" where
  "serialize_path segs = concat (map (\<lambda>seg. CHR ''/'' # seg) segs)"

definition url_toString :: "URL \<Rightarrow> string" where
  "url_toString u =
     scheme u @ ''://''
     @ (if username u \<noteq> [] \<or> password u \<noteq> []
        then username u @ (if password u \<noteq> [] then '':'' @ password u else []) @ ''@''
        else [])
     @ host u
     @ (case port u of None \<Rightarrow> [] | Some p \<Rightarrow> '':'' @ string_of_nat p)
     @ serialize_path (path u)
     @ (case query u of None \<Rightarrow> [] | Some q \<Rightarrow> ''?'' @ q)
     @ (case fragment u of None \<Rightarrow> [] | Some f \<Rightarrow> ''#'' @ f)"

definition hostname :: "URL \<Rightarrow> string" where
  "hostname u = host u"

text \<open>\<^verbatim>\<open>url.hash = ''\<close> removes the fragment.\<close>

definition clear_hash :: "URL \<Rightarrow> URL" where
  "clear_hash u = u\<lparr>fragment := None\<rparr>"

subsection \<open>Host parsers\<close>

text \<open>What the results below need of the host parser of the platform: a serialized host
  is not empty; it is printable ASCII without capital letters and without the characters
  that end an authority or set off credentials; colons occur only inside one pair of
  square brackets around the whole host (an IPv6 literal); and the host parser maps a
  serialized host to itself. The URL Standard's host parser meets all of this: a domain is
  the lowercase result of IDNA processing without forbidden code points, an IPv4 address
  is four decimal numbers with dots, an IPv6 address stands in brackets.\<close>

definition host_char :: "char \<Rightarrow> bool" where
  "host_char c \<longleftrightarrow>
     33 \<le> code c \<and> code c \<le> 126 \<and> \<not> (65 \<le> code c \<and> code c \<le> 90)
     \<and> c \<notin> set ''/?#@'' \<and> c \<noteq> CHR 0x5C"

definition host_shape :: "string \<Rightarrow> bool" where
  "host_shape h \<longleftrightarrow>
     h \<noteq> [] \<and> list_all host_char h
     \<and> (list_all (\<lambda>c. c \<notin> set '':[]'') h
        \<or> (2 \<le> length h \<and> hd h = CHR ''['' \<and> last h = CHR '']''
           \<and> list_all (\<lambda>c. c \<notin> set ''[]'') (butlast (tl h))))"

definition host_parser_ok :: "host_parser \<Rightarrow> bool" where
  "host_parser_ok hp \<longleftrightarrow> (\<forall>b h. hp b = Some h \<longrightarrow> host_shape h \<and> hp h = Some h)"

text \<open>A host parser to compute with: it accepts the domains made of ASCII letters,
  digits, hyphens and dots whose last label starts with a letter and that have no label
  starting with \<^verbatim>\<open>xn--\<close>, and lowercases them. On these hosts the host parser of the
  URL Standard does the same; all other hosts this one rejects.\<close>

definition is_domain_char :: "char \<Rightarrow> bool" where
  "is_domain_char c \<longleftrightarrow> is_alpha c \<or> is_digit c \<or> c = CHR ''-'' \<or> c = CHR ''.''"

fun punycode_at :: "bool \<Rightarrow> string \<Rightarrow> bool" where
  "punycode_at label_start [] = False"
| "punycode_at label_start (c # cs) =
     ((label_start \<and> startsWith_ci (c # cs) ''xn--'') \<or> punycode_at (c = CHR ''.'') cs)"

definition ascii_domain :: host_parser where
  "ascii_domain b =
     (let last_label = rev (takeWhile (\<lambda>c. c \<noteq> CHR ''.'') (rev b))
      in if list_all is_domain_char b \<and> last_label \<noteq> [] \<and> is_alpha (hd last_label)
            \<and> \<not> punycode_at True b
         then Some (map ascii_lower b) else None)"

section \<open>normalizeUrl\<close>

text \<open>The test \<^verbatim>\<open>/^https?:\/\//i\<close>.\<close>

definition has_http_scheme :: "string \<Rightarrow> bool" where
  "has_http_scheme s \<longleftrightarrow> startsWith_ci s ''http://'' \<or> startsWith_ci s ''https://''"

definition normalizeUrl :: "host_parser \<Rightarrow> string \<Rightarrow> string option" where
  "normalizeUrl hp input =
     (if input = [] then None
      else
        (let trimmed = js_trim input;
             candidate = (if has_http_scheme trimmed then trimmed else ''https://'' @ trimmed)
         in case new_URL hp candidate of
              None \<Rightarrow> None
            | Some u \<Rightarrow>
                (let normalized = url_toString (clear_hash u);
                     normalized = (if endsWith normalized ''/'' then butlast normalized else normalized)
                 in Some (toLowerCase normalized))))"

section \<open>extractUrlsFromText\<close>

text \<open>The pattern \<^verbatim>\<open>/(https?:\/\/[^\s"'<>]+|www\.[^\s"'<>]+)/gi\<close>: one of the prefixes
  \<^verbatim>\<open>https://\<close>, \<^verbatim>\<open>http://\<close>, \<^verbatim>\<open>www.\<close> in any letter case, then the longest
  non-empty run of characters that are neither white space, quotes nor angle brackets.\<close>

definition is_url_delim :: "char \<Rightarrow> bool" where
  "is_url_delim c \<longleftrightarrow> js_whitespace c \<or> c = CHR 0x22 \<or> c = CHR 0x27 \<or> c = CHR ''<'' \<or> c = CHR ''>''"

definition match_prefix :: "string \<Rightarrow> string \<Rightarrow> string option" where
  "match_prefix p s =
     (let body = takeWhile (\<lambda>c. \<not> is_url_delim c) (drop (length p) s)
      in if startsWith_ci s p \<and> body \<noteq> [] then Some (take (length p) s @ body) else None)"

text \<open>The match that starts at the first character of the string, if there is one.\<close>

definition regex_match_at :: "string \<Rightarrow> string option" where
  "regex_match_at s =
     (case match_prefix ''https://'' s of
        Some m \<Rightarrow> Some m
      | None \<Rightarrow> (case match_prefix ''http://'' s of
                   Some m \<Rightarrow> Some m
                 | None \<Rightarrow> match_prefix ''www.'' s))"

text \<open>\<^verbatim>\<open>text.matchAll(regex)\<close>: the matches from left to right. After a match the search
  goes on behind its last character (the first argument counts the characters of the match
  still to be passed); where nothing matches it moves one character on.\<close>

fun matchAll_from :: "nat \<Rightarrow> string \<Rightarrow> string list" where
  "matchAll_from skip [] = []"
| "matchAll_from 0 (c # cs) =
     (case regex_match_at (c # cs) of
        Some m \<Rightarrow> m # matchAll_from (length m - 1) cs
      | None \<Rightarrow> matchAll_from 0 cs)"
| "matchAll_from (Suc skip) (c # cs) = matchAll_from skip cs"

definition matchAll :: "string \<Rightarrow> string list" where
  "matchAll text = matchAll_from 0 text"

text \<open>The matches are normalized and collected in a \<^verbatim>\<open>Set\<close>, which keeps the order of
  first insertion.\<close>

definition set_add :: "string list \<Rightarrow> string \<Rightarrow> string list" where
  "set_add found x = (if x \<in> set found then found else found @ [x])"

definition extractUrlsFromText :: "host_parser \<Rightarrow> string \<Rightarrow> string list" where
  "extractUrlsFromText hp text =
     (if text = [] then []
      else foldl (\<lambda>found raw. case normalizeUrl hp raw of
                                 None \<Rightarrow> found
                               | Some normalized \<Rightarrow> set_add found normalized)
             [] (matchAll text))"

section \<open>The feed cache: class UrlhausCache\<close>

definition PHISH_API :: string where
  "PHISH_API = ''https://phish.sinking.yachts/v2/check/''"

definition URLHAUS_FEED :: string where
  "URLHAUS_FEED = ''https://urlhaus.abuse.ch/downloads/csv_online/''"

definition URLHAUS_TTL_MS :: int where
  "URLHAUS_TTL_MS = 15 * 60 * 1000"

definition MAX_TEXT_URLS :: nat where
  "MAX_TEXT_URLS = 6"

subsection \<open>Errors, responses and feed entries\<close>

text \<open>A thrown value or rejection reason; only its \<^verbatim>\<open>message\<close> is ever read.
  \<open>Rejection\<close> is what the network layer rejects with (failure, abort on timeout).\<close>

datatype js_error = Error string | TypeError string | Rejection string

fun message :: "js_error \<Rightarrow> string" where
  "message (Error m) = m"
| "message (TypeError m) = m"
| "message (Rejection m) = m"

text \<open>What a \<^verbatim>\<open>fetch\<close> comes to: it rejects, or it gives a response with a status whose
  body, read by \<^verbatim>\<open>resp.text()\<close>, rejects or is a string. \<^verbatim>\<open>fetchWithTimeout\<close> is
  \<^verbatim>\<open>fetch\<close> with an abort after \<^verbatim>\<open>FETCH_TIMEOUT_MS\<close>; the abort is one of the ways the
  request is rejected. Time itself is not modelled.\<close>

datatype fetch_outcome = FetchRejected js_error | Responded nat "js_error + string"

definition resp_ok :: "nat \<Rightarrow> bool" where
  "resp_ok status \<longleftrightarrow> 200 \<le> status \<and> status \<le> 299"

record feed_entry =
  url :: string
  threat :: string
  lastOnline :: "string option"

record match_result = feed_entry +
  matchType :: string

type_synonym url_map = "string \<rightharpoonup> feed_entry"
type_synonym host_map = "string \<rightharpoonup> feed_entry list"

text \<open>The object \<^verbatim>\<open>{ urlMap, hostMap, refreshedAt }\<close> that \<^verbatim>\<open>load\<close> resolves to.\<close>

type_synonym snapshot = "url_map \<times> host_map \<times> int"

record UrlhausCache =
  lastFetched :: int
  loading :: "nat option"
  urlMap :: url_map
  hostMap :: host_map

text \<open>The constructor.\<close>

definition new_UrlhausCache :: UrlhausCache where
  "new_UrlhausCache = \<lparr>lastFetched = 0, loading = None, urlMap = Map.empty, hostMap = Map.empty\<rparr>"

definition isFresh :: "UrlhausCache \<Rightarrow> int \<Rightarrow> bool" where
  "isFresh c now \<longleftrightarrow> now - lastFetched c < URLHAUS_TTL_MS"

subsection \<open>Parsing the feed\<close>

text \<open>\<^verbatim>\<open>x || d\<close> for a string that may be undefined, and \<^verbatim>\<open>x || null\<close>.\<close>

definition or_string :: "string option \<Rightarrow> string \<Rightarrow> string" where
  "or_string x d = (case x of None \<Rightarrow> d | Some s \<Rightarrow> if s = [] then d else s)"

definition or_null :: "string option \<Rightarrow> string option" where
  "or_null x = (case x of None \<Rightarrow> None | Some s \<Rightarrow> if s = [] then None else Some s)"

text \<open>An element of an array, \<^verbatim>\<open>undefined\<close> beyond its end.\<close>

definition at_index :: "'a list \<Rightarrow> nat \<Rightarrow> 'a option" where
  "at_index xs i = (if i < length xs then Some (xs ! i) else None)"

text \<open>\<^verbatim>\<open>.replace(/^"|"$/g, '')\<close>: one quote off the front and one off the end.\<close>

definition strip_quotes :: "string \<Rightarrow> string" where
  "strip_quotes s =
     (let s1 = (if s \<noteq> [] \<and> hd s = CHR 0x22 then tl s else s)
      in if s1 \<noteq> [] \<and> last s1 = CHR 0x22 then butlast s1 else s1)"

text \<open>\<^verbatim>\<open>.replace(/^www\./, '')\<close>.\<close>

definition strip_www :: "string \<Rightarrow> string" where
  "strip_www s = (if startsWith s ''www.'' then drop 4 s else s)"

text \<open>The body of the loop over the lines of the feed, on the two maps under construction.
  \<^verbatim>\<open>new URL(normalizedUrl)\<close> stands in a \<^verbatim>\<open>try\<close> of its own: when it throws, the host map
  is left as it is.\<close>

definition feed_line :: "host_parser \<Rightarrow> url_map \<times> host_map \<Rightarrow> string \<Rightarrow> url_map \<times> host_map" where
  "feed_line hp maps line =
     (let nextUrlMap = fst maps; nextHostMap = snd maps in
      if line = [] \<or> startsWith line ''#'' then maps
      else
        (let cleaned = strip_quotes (js_trim line);
             parts = split cleaned [CHR 0x22, CHR '','', CHR 0x22]
         in if length parts < 3 then maps
            else
              (let urlField = parts ! 2;
                   lastOnline = at_index parts 4;
                   threat = at_index parts 5
               in case normalizeUrl hp urlField of
                    None \<Rightarrow> maps
                  | Some normalizedUrl \<Rightarrow>
                      (let nextUrlMap = nextUrlMap(normalizedUrl \<mapsto>
                             \<lparr>url = normalizedUrl, threat = or_string threat ''listed'',
                              lastOnline = or_null lastOnline\<rparr>)
                       in case new_URL hp normalizedUrl of
                            None \<Rightarrow> (nextUrlMap, nextHostMap)
                          | Some u \<Rightarrow>
                              (let host = toLowerCase (strip_www (hostname u));
                                   existing = (case nextHostMap host of None \<Rightarrow> [] | Some es \<Rightarrow> es);
                                   existing = (if length existing < 5
                                               then existing @ [\<lparr>url = normalizedUrl,
                                                                  threat = or_string threat ''listed'',
                                                                  lastOnline = or_null lastOnline\<rparr>]
                                               else existing)
                               in (nextUrlMap, nextHostMap(host \<mapsto> existing)))))))"

definition parse_feed :: "host_parser \<Rightarrow> string \<Rightarrow> url_map \<times> host_map" where
  "parse_feed hp text = foldl (feed_line hp) (Map.empty, Map.empty) (split text [CHR 0x0A])"

subsection \<open>The runtime around the cache\<close>

text \<open>
  The asynchronous methods are cut at their \<^verbatim>\<open>await\<close>s. What lies before the first
  \<^verbatim>\<open>await\<close> runs at once, inside the call; it is a function on the state of the
  runtime. What lies behind runs when the awaited operation has settled, and takes what
  it settled to as an argument.

  The state of the runtime is the cache object, the log of the GET requests issued so
  far, and the refreshes of the feed that are under way. A refresh is named by the
  position of its request in the log; that number stands for the promise
  \<^verbatim>\<open>fetchFeed()\<close> returns.
\<close>

record runtime =
  cache :: UrlhausCache
  requests :: "string list"
  refreshing :: "nat list"

definition initial_runtime :: runtime where
  "initial_runtime = \<lparr>cache = new_UrlhausCache, requests = [], refreshing = []\<rparr>"

text \<open>What a call of \<^verbatim>\<open>load\<close> returns: a promise already resolved to a snapshot, or one
  that settles as the refresh with the given number does.\<close>

datatype loaded = Ready snapshot | Pending nat

text \<open>\<^verbatim>\<open>fetchFeed\<close> up to its first \<^verbatim>\<open>await\<close>: the request to the feed goes out.\<close>

definition fetchFeed_begin :: "runtime \<Rightarrow> runtime \<times> nat" where
  "fetchFeed_begin w =
     (w\<lparr>requests := requests w @ [URLHAUS_FEED],
        refreshing := refreshing w @ [length (requests w)]\<rparr>,
      length (requests w))"

text \<open>The \<^verbatim>\<open>try\<close> block of \<^verbatim>\<open>fetchFeed\<close> behind the request: the status check, the read
  of the body and the parse. Between the response and its body nothing is written, so the
  two \<^verbatim>\<open>await\<close>s are taken as one step.\<close>

definition fetchFeed_try :: "host_parser \<Rightarrow> fetch_outcome \<Rightarrow> js_error + url_map \<times> host_map" where
  "fetchFeed_try hp outcome =
     (case outcome of
        FetchRejected err \<Rightarrow> Inl err
      | Responded status body \<Rightarrow>
          if \<not> resp_ok status then Inl (Error (''URLHaus responded with '' @ string_of_nat status))
          else (case body of
                  Inl err \<Rightarrow> Inl err
                | Inr text \<Rightarrow> Inr (parse_feed hp text)))"

text \<open>The rest of \<^verbatim>\<open>fetchFeed\<close>, on the cache object: the new state of the cache and what
  the promise settles to.\<close>

definition fetchFeed_end ::
  "host_parser \<Rightarrow> UrlhausCache \<Rightarrow> fetch_outcome \<Rightarrow> int \<Rightarrow> UrlhausCache \<times> (js_error + snapshot)" where
  "fetchFeed_end hp c outcome now =
     (case fetchFeed_try hp outcome of
        Inr (nextUrlMap, nextHostMap) \<Rightarrow>
          (c\<lparr>urlMap := nextUrlMap, hostMap := nextHostMap, lastFetched := now, loading := None\<rparr>,
           Inr (nextUrlMap, nextHostMap, now))
      | Inl err \<Rightarrow> (c\<lparr>loading := None\<rparr>, Inl err))"

definition load :: "runtime \<Rightarrow> int \<Rightarrow> runtime \<times> loaded" where
  "load w now =
     (if isFresh (cache w) now
      then (w, Ready (urlMap (cache w), hostMap (cache w), lastFetched (cache w)))
      else (case loading (cache w) of
              Some p \<Rightarrow> (w, Pending p)
            | None \<Rightarrow>
                (let (w', p) = fetchFeed_begin w
                 in (w'\<lparr>cache := (cache w')\<lparr>loading := Some p\<rparr>\<rparr>, Pending p))))"

text \<open>The events at the runtime: a call of \<^verbatim>\<open>load\<close> at some time (\<^verbatim>\<open>check\<close> calls it
  once), the settling of the request of a refresh that is under way, and a request to
  another address going out (\<^verbatim>\<open>checkPhishFeed\<close> issues one).\<close>

datatype event = Load int | Settle nat fetch_outcome int | Request string

fun step :: "host_parser \<Rightarrow> runtime \<Rightarrow> event \<Rightarrow> runtime" where
  "step hp w (Load now) = fst (load w now)"
| "step hp w (Settle p outcome now) =
     (if p \<in> set (refreshing w)
      then w\<lparr>cache := fst (fetchFeed_end hp (cache w) outcome now),
             refreshing := removeAll p (refreshing w)\<rparr>
      else w)"
| "step hp w (Request address) = w\<lparr>requests := requests w @ [address]\<rparr>"

definition run :: "host_parser \<Rightarrow> runtime \<Rightarrow> event list \<Rightarrow> runtime" where
  "run hp w evs = foldl (step hp) w evs"

subsection \<open>check\<close>

record sourced =
  source :: string

record urlhaus_result = sourced +
  refreshedAt :: int
  listed :: bool
  matches :: "match_result list"

definition tag :: "string \<Rightarrow> feed_entry \<Rightarrow> match_result" where
  "tag t e = \<lparr>url = url e, threat = threat e, lastOnline = lastOnline e, matchType = t\<rparr>"

text \<open>\<^verbatim>\<open>check\<close> up to \<^verbatim>\<open>await this.load()\<close>: the normalized URL, the host key and the
  promise of \<^verbatim>\<open>load\<close>, or the error thrown before.\<close>

definition check_begin ::
  "host_parser \<Rightarrow> runtime \<Rightarrow> int \<Rightarrow> string \<Rightarrow> runtime \<times> (js_error + string \<times> string \<times> loaded)" where
  "check_begin hp w now inputUrl =
     (case normalizeUrl hp inputUrl of
        None \<Rightarrow> (w, Inl (Error ''Invalid URL''))
      | Some normalized \<Rightarrow>
          (case new_URL hp normalized of
             None \<Rightarrow> (w, Inl (TypeError ''Invalid URL''))
           | Some parsed \<Rightarrow>
               (let hostKey = toLowerCase (strip_www (hostname parsed));
                    (w', l) = load w now
                in (w', Inr (normalized, hostKey, l)))))"

text \<open>\<^verbatim>\<open>check\<close> behind the \<^verbatim>\<open>await\<close>, with the snapshot \<^verbatim>\<open>load\<close> resolved to.\<close>

definition check_end :: "string \<Rightarrow> string \<Rightarrow> snapshot \<Rightarrow> urlhaus_result" where
  "check_end normalized hostKey snap =
     (let (um, hm, refreshed) = snap;
          ms = (case um normalized of None \<Rightarrow> [] | Some direct \<Rightarrow> [tag ''url'' direct]);
          hostHits = (case hm hostKey of None \<Rightarrow> [] | Some hits \<Rightarrow> hits);
          ms = ms @ map (tag ''host'') hostHits
      in \<lparr>source = ''URLHaus (online feed)'', refreshedAt = refreshed,
          listed = (0 < length ms), matches = take 5 ms\<rparr>)"

text \<open>What an \<^verbatim>\<open>await\<close> on the promise of \<^verbatim>\<open>load\<close> gives, when a pending refresh
  settles to \<open>r\<close>.\<close>

fun await_loaded :: "loaded \<Rightarrow> js_error + snapshot \<Rightarrow> js_error + snapshot" where
  "await_loaded (Ready snap) r = Inr snap"
| "await_loaded (Pending p) r = r"

text \<open>What the promise of \<^verbatim>\<open>check\<close> settles to.\<close>

definition check_settled ::
  "js_error + string \<times> string \<times> loaded \<Rightarrow> js_error + snapshot \<Rightarrow> js_error + urlhaus_result" where
  "check_settled begun r =
     (case begun of
        Inl err \<Rightarrow> Inl err
      | Inr (normalized, hostKey, l) \<Rightarrow>
          (case await_loaded l r of
             Inl err \<Rightarrow> Inl err
           | Inr snap \<Rightarrow> Inr (check_end normalized hostKey snap)))"

section \<open>class OsintService\<close>

subsection \<open>checkPhishFeed\<close>

text \<open>\<^verbatim>\<open>encodeURIComponent\<close> keeps letters, digits and \<^verbatim>\<open>-_.!~*'()\<close>, and percent-encodes
  the UTF-8 bytes of everything else.\<close>

definition uri_unreserved :: "char \<Rightarrow> bool" where
  "uri_unreserved c \<longleftrightarrow> is_alpha c \<or> is_digit c \<or> c \<in> set ''-_.!~*()'' \<or> c = CHR 0x27"

definition encodeURIComponent :: "string \<Rightarrow> string" where
  "encodeURIComponent s = percent_encode (\<lambda>c. \<not> uri_unreserved c) s"

record phish_result = sourced +
  flagged :: bool

text \<open>\<^verbatim>\<open>checkPhishFeed\<close> up to \<^verbatim>\<open>await fetchWithTimeout(...)\<close>: the request goes out, or
  an error is thrown before.\<close>

definition checkPhishFeed_begin ::
  "host_parser \<Rightarrow> runtime \<Rightarrow> string \<Rightarrow> runtime \<times> (js_error + unit)" where
  "checkPhishFeed_begin hp w targetUrl =
     (case normalizeUrl hp targetUrl of
        None \<Rightarrow> (w, Inl (Error ''Invalid URL''))
      | Some normalized \<Rightarrow>
          (case new_URL hp normalized of
             None \<Rightarrow> (w, Inl (TypeError ''Invalid URL''))
           | Some parsed \<Rightarrow>
               (let target = toLowerCase (hostname parsed)
                in (w\<lparr>requests := requests w @ [PHISH_API @ encodeURIComponent target]\<rparr>, Inr ()))))"

text \<open>\<^verbatim>\<open>checkPhishFeed\<close> behind the request.\<close>

definition checkPhishFeed_end :: "fetch_outcome \<Rightarrow> js_error + phish_result" where
  "checkPhishFeed_end outcome =
     (case outcome of
        FetchRejected err \<Rightarrow> Inl err
      | Responded status body \<Rightarrow>
          if \<not> resp_ok status
          then Inl (Error (''phish.sinking.yachts responded with '' @ string_of_nat status))
          else (case body of
                  Inl err \<Rightarrow> Inl err
                | Inr text \<Rightarrow>
                    Inr \<lparr>source = ''phish.sinking.yachts'',
                         flagged = (toLowerCase (js_trim text) = ''true'')\<rparr>))"

definition checkPhishFeed_settled :: "js_error + unit \<Rightarrow> fetch_outcome \<Rightarrow> js_error + phish_result" where
  "checkPhishFeed_settled begun outcome =
     (case begun of Inl err \<Rightarrow> Inl err | Inr _ \<Rightarrow> checkPhishFeed_end outcome)"

subsection \<open>inspectUrl\<close>

text \<open>One source in the report: the payload of the check, or \<^verbatim>\<open>{ source, error }\<close>.\<close>

datatype 'a source_result = Payload 'a | Failure string string

text \<open>\<^verbatim>\<open>{ ok: false, error }\<close>, \<^verbatim>\<open>{ ok: false, error, url }\<close> and
  \<^verbatim>\<open>{ ok: true, host, normalizedUrl, sources: { phishFeed, urlhaus }, fetchedAt }\<close>.\<close>

datatype inspection =
    Invalid string
  | LookupFailed string string
  | Inspected string string "phish_result source_result" "urlhaus_result source_result" int

fun ok :: "inspection \<Rightarrow> bool" where
  "ok (Invalid e) = False"
| "ok (LookupFailed e u) = False"
| "ok (Inspected h n phishFeed urlhaus t) = True"

text \<open>\<^verbatim>\<open>reason?.message || 'Lookup failed'\<close>.\<close>

definition reason_message :: "js_error \<Rightarrow> string" where
  "reason_message reason = (if message reason = [] then ''Lookup failed'' else message reason)"

text \<open>One entry of \<^verbatim>\<open>sources\<close>, from a settled promise.\<close>

definition source_of :: "string \<Rightarrow> js_error + 'a \<Rightarrow> 'a source_result" where
  "source_of name settled =
     (case settled of Inr v \<Rightarrow> Payload v | Inl reason \<Rightarrow> Failure name (reason_message reason))"

text \<open>How far \<^verbatim>\<open>inspectUrl\<close> gets at once: it returns, it throws, or it waits at
  \<^verbatim>\<open>Promise.allSettled\<close> with both checks begun.\<close>

datatype inspecting =
    Returned inspection
  | Threw js_error
  | Waiting string string "js_error + unit" "js_error + string \<times> string \<times> loaded"

definition inspectUrl_begin :: "host_parser \<Rightarrow> runtime \<Rightarrow> int \<Rightarrow> string \<Rightarrow> runtime \<times> inspecting" where
  "inspectUrl_begin hp w now rawUrl =
     (case normalizeUrl hp rawUrl of
        None \<Rightarrow> (w, Returned (Invalid ''Enter a valid URL (example: https://example.com).''))
      | Some normalizedUrl \<Rightarrow>
          (case new_URL hp normalizedUrl of
             None \<Rightarrow> (w, Threw (TypeError ''Invalid URL''))
           | Some parsed \<Rightarrow>
               (let host = toLowerCase (strip_www (hostname parsed));
                    (w1, phish) = checkPhishFeed_begin hp w normalizedUrl;
                    (w2, urlhaus) = check_begin hp w1 now normalizedUrl
                in (w2, Waiting host normalizedUrl phish urlhaus))))"

text \<open>What the surroundings bring to one call of \<^verbatim>\<open>inspectUrl\<close>: the time of the call, the
  outcome of the request to the phishing feed, what a pending refresh of the cache settles
  to, and the time at the end.\<close>

record surroundings =
  calledAt :: int
  phishOutcome :: fetch_outcome
  refreshOutcome :: "js_error + snapshot"
  fetchedAt :: int

text \<open>\<^verbatim>\<open>inspectUrl\<close> behind \<^verbatim>\<open>Promise.allSettled\<close>; \<open>Inl\<close> is a rejection of its promise.\<close>

definition inspectUrl_end :: "inspecting \<Rightarrow> surroundings \<Rightarrow> js_error + inspection" where
  "inspectUrl_end begun env =
     (case begun of
        Returned r \<Rightarrow> Inr r
      | Threw err \<Rightarrow> Inl err
      | Waiting h normalizedUrl phish urlhaus \<Rightarrow>
          (let phishRes = checkPhishFeed_settled phish (phishOutcome env);
               urlhausRes = check_settled urlhaus (refreshOutcome env)
           in Inr (Inspected h normalizedUrl
                     (source_of ''phish.sinking.yachts'' phishRes)
                     (source_of ''URLHaus'' urlhausRes)
                     (fetchedAt env))))"

definition inspectUrl ::
  "host_parser \<Rightarrow> runtime \<Rightarrow> surroundings \<Rightarrow> string \<Rightarrow> runtime \<times> (js_error + inspection)" where
  "inspectUrl hp w env rawUrl =
     (let (w', begun) = inspectUrl_begin hp w (calledAt env) rawUrl
      in (w', inspectUrl_end begun env))"

subsection \<open>inspectText\<close>

record text_inspection =
  ok_text :: bool
  urls :: "inspection list"
  truncated :: bool
  found :: nat

text \<open>The callback of \<^verbatim>\<open>limited.map\<close>: a rejection of \<^verbatim>\<open>inspectUrl\<close> becomes an entry.\<close>

definition guarded :: "string \<Rightarrow> js_error + inspection \<Rightarrow> inspection" where
  "guarded u settled =
     (case settled of Inr r \<Rightarrow> r | Inl err \<Rightarrow> LookupFailed (reason_message err) u)"

text \<open>The calls of \<^verbatim>\<open>inspectUrl\<close> begin one after the other, in the order of the array;
  \<open>envs\<close> gives each position its surroundings.\<close>

fun inspect_all ::
  "host_parser \<Rightarrow> runtime \<Rightarrow> (nat \<Rightarrow> surroundings) \<Rightarrow> nat \<Rightarrow> string list \<Rightarrow> runtime \<times> inspection list" where
  "inspect_all hp w envs i [] = (w, [])"
| "inspect_all hp w envs i (u # rest) =
     (let (w1, begun) = inspectUrl_begin hp w (calledAt (envs i)) u;
          (w2, results) = inspect_all hp w1 envs (Suc i) rest
      in (w2, guarded u (inspectUrl_end begun (envs i)) # results))"

definition inspectText ::
  "host_parser \<Rightarrow> runtime \<Rightarrow> (nat \<Rightarrow> surroundings) \<Rightarrow> string \<Rightarrow> runtime \<times> text_inspection" where
  "inspectText hp w envs text =
     (let extracted = extractUrlsFromText hp text;
          limited = take MAX_TEXT_URLS extracted;
          (w', results) = inspect_all hp w envs 0 limited
      in (w', \<lparr>ok_text = True, urls = results,
               truncated = (length limited < length extracted), found = length extracted\<rparr>))"

section \<open>Notions for the proofs\<close>

text \<open>Printable ASCII without the space: what a serialized URL consists of.\<close>

definition printable :: "char \<Rightarrow> bool" where
  "printable c \<longleftrightarrow> 33 \<le> code c \<and> code c \<le> 126"

text \<open>The URL records the parser produces: every component is percent-encoded for its
  place, the path has a segment, no segment is a dot segment, the port is not the default
  one, and the host is a serialized host.\<close>

definition clean_segment :: "string \<Rightarrow> bool" where
  "clean_segment seg \<longleftrightarrow>
     list_all (\<lambda>c. \<not> path_set c \<and> \<not> is_slash c) seg \<and> \<not> is_single_dot seg \<and> \<not> is_double_dot seg"

definition canonical :: "host_parser \<Rightarrow> URL \<Rightarrow> bool" where
  "canonical hp u \<longleftrightarrow>
     (scheme u = ''http'' \<or> scheme u = ''https'')
     \<and> list_all (\<lambda>c. \<not> userinfo_set c) (username u)
     \<and> list_all (\<lambda>c. \<not> userinfo_set c) (password u)
     \<and> host_shape (host u) \<and> hp (host u) = Some (host u)
     \<and> (case port u of None \<Rightarrow> True | Some p \<Rightarrow> p \<le> 65535 \<and> Some p \<noteq> default_port (scheme u))
     \<and> path u \<noteq> [] \<and> list_all clean_segment (path u)
     \<and> (case query u of None \<Rightarrow> True | Some q \<Rightarrow> list_all (\<lambda>c. \<not> special_query_set c) q)
     \<and> (case fragment u of None \<Rightarrow> True | Some f \<Rightarrow> list_all (\<lambda>c. \<not> fragment_set c) f)"

text \<open>The record whose serialization is the lowercased serialization.\<close>

definition lower_url :: "URL \<Rightarrow> URL" where
  "lower_url u =
     u\<lparr>username := map ascii_lower (username u), password := map ascii_lower (password u),
       path := map (map ascii_lower) (path u), query := map_option (map ascii_lower) (query u),
       fragment := map_option (map ascii_lower) (fragment u)\<rparr>"

text \<open>A set is encodable when the percent sign and the hexadecimal digits are outside it;
  then nothing of the set is left after encoding.\<close>

definition encodable :: "(char \<Rightarrow> bool) \<Rightarrow> bool" where
  "encodable S \<longleftrightarrow>
     (\<forall>x. code x = 37 \<or> (48 \<le> code x \<and> code x \<le> 57) \<or> (65 \<le> code x \<and> code x \<le> 70) \<longrightarrow> \<not> S x)"

text \<open>The serialization up to the path.\<close>

definition authority_string :: "URL \<Rightarrow> string" where
  "authority_string u =
     scheme u @ ''://''
     @ (if username u \<noteq> [] \<or> password u \<noteq> []
        then username u @ (if password u \<noteq> [] then '':'' @ password u else []) @ ''@''
        else [])
     @ host u
     @ (case port u of None \<Rightarrow> [] | Some p \<Rightarrow> '':'' @ string_of_nat p)"

section \<open>Notions for the statements\<close>

text \<open>\<^verbatim>\<open>normalize(normalize(x))\<close>; \<^verbatim>\<open>normalizeUrl(null)\<close> is \<^verbatim>\<open>null\<close>.\<close>

definition normalize_twice :: "host_parser \<Rightarrow> string \<Rightarrow> string option" where
  "normalize_twice hp x = (case normalizeUrl hp x of None \<Rightarrow> None | Some n \<Rightarrow> normalizeUrl hp n)"

text \<open>A burst of calls of \<^verbatim>\<open>load\<close>, at the given times, with nothing settling in between:
  the runtime afterwards and what each call returned.\<close>

fun loads :: "runtime \<Rightarrow> int list \<Rightarrow> runtime \<times> loaded list" where
  "loads w [] = (w, [])"
| "loads w (t # ts) =
     (let (w1, l) = load w t; (w2, ls) = loads w1 ts in (w2, l # ls))"

text \<open>The entries one line of the feed gives to a host, taken alone: what the loop body
  puts under that host into an empty host map.\<close>

definition line_entries :: "host_parser \<Rightarrow> string \<Rightarrow> string \<Rightarrow> feed_entry list" where
  "line_entries hp h line =
     (case snd (feed_line hp (Map.empty, Map.empty) line) h of None \<Rightarrow> [] | Some es \<Rightarrow> es)"

text \<open>The host index as the specification words it: for each host, the entries of the
  lines of that host in the order of the feed, the first five of them.\<close>

definition host_index_spec :: "host_parser \<Rightarrow> string list \<Rightarrow> string \<Rightarrow> feed_entry list" where
  "host_index_spec hp lines h = take 5 (concat (map (line_entries hp h) lines))"

text \<open>The combined list of matches before it is cut to five.\<close>

definition combined_matches :: "string \<Rightarrow> string \<Rightarrow> url_map \<Rightarrow> host_map \<Rightarrow> match_result list" where
  "combined_matches normalized hostKey um hm =
     (case um normalized of None \<Rightarrow> [] | Some direct \<Rightarrow> [tag ''url'' direct])
     @ map (tag ''host'') (case hm hostKey of None \<Rightarrow> [] | Some hits \<Rightarrow> hits)"

text \<open>The normalized URLs of a text with repetitions, and a list without its later
  repetitions.\<close>

definition normalized_matches :: "host_parser \<Rightarrow> string \<Rightarrow> string list" where
  "normalized_matches hp text = List.map_filter (normalizeUrl hp) (matchAll text)"

definition first_occurrences :: "'a list \<Rightarrow> 'a list" where
  "first_occurrences xs = rev (remdups (rev xs))"

text \<open>The marker \<^verbatim>\<open>loading\<close> names the one refresh under way, if there is one.\<close>

definition single_flight :: "runtime \<Rightarrow> bool" where
  "single_flight w \<longleftrightarrow>
     refreshing w = (case loading (cache w) of None \<Rightarrow> [] | Some p \<Rightarrow> [p])"

text \<open>What a line of the feed holds, if it is a data line whose URL normalizes: the
  normalized URL, the entry, and the host key when the URL parses again.\<close>

definition line_record :: "host_parser \<Rightarrow> string \<Rightarrow> (string \<times> feed_entry \<times> string option) option" where
  "line_record hp line =
     (if line = [] \<or> startsWith line ''#'' then None
      else
        (let parts = split (strip_quotes (js_trim line)) [CHR 0x22, CHR '','', CHR 0x22]
         in if length parts < 3 then None
            else (case normalizeUrl hp (parts ! 2) of
                    None \<Rightarrow> None
                  | Some n \<Rightarrow>
                      Some (n,
                            \<lparr>url = n, threat = or_string (at_index parts 5) ''listed'',
                             lastOnline = or_null (at_index parts 4)\<rparr>,
                            map_option (\<lambda>u. toLowerCase (strip_www (hostname u))) (new_URL hp n)))))"

definition entries_of :: "host_map \<Rightarrow> string \<Rightarrow> feed_entry list" where
  "entries_of hm h = (case hm h of None \<Rightarrow> [] | Some es \<Rightarrow> es)"

text \<open>The host lists of the cache never grow beyond five entries.\<close>

definition bounded_index :: "host_map \<Rightarrow> bool" where
  "bounded_index hm \<longleftrightarrow> (\<forall>h es. hm h = Some es \<longrightarrow> length es \<le> 5)"

text \<open>A feed to compute with: a comment line and seven data lines of one host, the
  second one with all six fields.\<close>

definition example_feed :: string where
  "example_feed =
     ''# id,dateadded,url'' @ [CHR 0x0A]
     @ ''\"1\",\"d\",\"http://b.io/1\"'' @ [CHR 0x0A]
     @ ''\"2\",\"d\",\"http://www.b.io/2\",\"online\",\"t\",\"malware\"'' @ [CHR 0x0D, CHR 0x0A]
     @ ''\"3\",\"d\",\"http://b.io/3\"'' @ [CHR 0x0A]
     @ ''\"4\",\"d\",\"http://b.io/4\"'' @ [CHR 0x0A]
     @ ''\"5\",\"d\",\"http://b.io/5\"'' @ [CHR 0x0A]
     @ ''\"6\",\"d\",\"http://b.io/6\"'' @ [CHR 0x0A]
     @ ''\"7\",\"d\",\"http://b.io/7\"'' @ [CHR 0x0A]"

text \<open>Surroundings to compute with: the request to the phishing feed is rejected, the
  refresh of the cache gives an empty snapshot.\<close>

definition example_surroundings :: surroundings where
  "example_surroundings =
     \<lparr>calledAt = 1700000000000, phishOutcome = FetchRejected (Rejection ''timeout''),
      refreshOutcome = Inr (Map.empty, Map.empty, 1700000000050), fetchedAt = 1700000000100\<rparr>"

text \<open>A text to compute with: seven different URLs, the first one twice.\<close>

definition example_text :: string where
  "example_text = ''see www.a.io WWW.A.io/ http://b.io <www.c.io> www.d.io www.e.io www.f.io www.g.io''"

definition nonempty_index :: "host_map \<Rightarrow> bool" where
  "nonempty_index hm \<longleftrightarrow> (\<forall>h. hm h \<noteq> Some [])"

section \<open>Characters\<close>

lemma code_lt: "code c < 256"
  by (simp add: code_def)

lemma code_inj: "(c = d) \<longleftrightarrow> (code c = code d)"
  by (auto simp: code_def)

lemma code_char_of: "code (char_of n) = n mod 256"
  by (simp add: code_def)

lemma ascii_lower_code:
  "code (ascii_lower c) = (if 65 \<le> code c \<and> code c \<le> 90 then code c + 32 else code c)"
  using code_lt [of c] by (auto simp: ascii_lower_def code_char_of)

lemma ascii_lower_idem: "ascii_lower (ascii_lower c) = ascii_lower c"
  by (simp add: code_inj [of "ascii_lower (ascii_lower c)"] ascii_lower_code)

lemma js_lower_ascii: "code c < 128 \<Longrightarrow> js_lower_char c = ascii_lower c"
  by (auto simp: js_lower_char_def ascii_lower_def)

text \<open>The sets of the URL Standard, by code.\<close>

lemma fragment_set_code:
  "fragment_set c \<longleftrightarrow> code c \<le> 32 \<or> 126 < code c \<or> code c \<in> {34, 60, 62, 96}"
  by (auto simp: fragment_set_def c0_control_set_def code_inj [of c] code_def)

lemma special_query_set_code:
  "special_query_set c \<longleftrightarrow> code c \<le> 32 \<or> 126 < code c \<or> code c \<in> {34, 35, 39, 60, 62}"
  by (auto simp: special_query_set_def query_set_def c0_control_set_def code_inj [of c] code_def)

lemma path_set_code:
  "path_set c \<longleftrightarrow>
     code c \<le> 32 \<or> 126 < code c \<or> code c \<in> {34, 35, 60, 62, 63, 94, 96, 123, 125}"
  by (auto simp: path_set_def query_set_def c0_control_set_def code_inj [of c] code_def)

lemma userinfo_set_code:
  "userinfo_set c \<longleftrightarrow>
     code c \<le> 32 \<or> 126 < code c
     \<or> code c \<in> {34, 35, 47, 58, 59, 60, 61, 62, 63, 64, 91, 92, 93, 94, 96, 123, 124, 125}"
  by (auto simp: userinfo_set_def path_set_code code_inj [of c] code_def)

lemma is_slash_code: "is_slash c \<longleftrightarrow> code c = 47 \<or> code c = 92"
  by (auto simp: is_slash_def code_inj [of c] code_def)

lemma is_authority_end_code: "is_authority_end c \<longleftrightarrow> code c \<in> {35, 47, 63, 92}"
  by (auto simp: is_authority_end_def is_slash_code code_inj [of c] code_def)


section \<open>Percent-encoding\<close>

lemma hex_digit_code:
  "n < 16 \<Longrightarrow> code (hex_digit n) = (if n < 10 then 48 + n else 55 + n)"
  by (simp add: hex_digit_def code_char_of)

lemma utf8_bytes: "b \<in> set (utf8 c) \<Longrightarrow> b < 256"
  using code_lt [of c] by (auto simp: utf8_def split: if_splits)

lemma percent_byte_chars:
  assumes "b < 256" and "x \<in> set (percent_byte b)"
  shows "code x = 37 \<or> (48 \<le> code x \<and> code x \<le> 57) \<or> (65 \<le> code x \<and> code x \<le> 70)"
proof -
  have d: "b div 16 < 16" and m: "b mod 16 < 16" using assms(1) by auto
  from assms(2) consider "x = CHR ''%''" | "x = hex_digit (b div 16)" | "x = hex_digit (b mod 16)"
    by (auto simp: percent_byte_def)
  then show ?thesis
  proof cases
    case 1 then show ?thesis by (simp add: code_def)
  next
    case 2 then show ?thesis using d by (auto simp: hex_digit_code)
  next
    case 3 then show ?thesis using m by (auto simp: hex_digit_code)
  qed
qed

lemma percent_encode_clean:
  assumes "encodable S"
  shows "list_all (\<lambda>c. \<not> S c) (percent_encode S s)"
proof -
  have "\<not> S x" if "c \<in> set s" "S c" "b \<in> set (utf8 c)" "x \<in> set (percent_byte b)" for c b x
    using percent_byte_chars [OF utf8_bytes [OF that(3)] that(4)] assms
    unfolding encodable_def by blast
  then show ?thesis
    by (auto simp: percent_encode_def list_all_iff)
qed

lemma percent_encode_id: "list_all (\<lambda>c. \<not> S c) s \<Longrightarrow> percent_encode S s = s"
  by (induction s) (auto simp: percent_encode_def)

lemma encodable_userinfo: "encodable userinfo_set"
  by (auto simp: encodable_def userinfo_set_code)

lemma encodable_path: "encodable path_set"
  by (auto simp: encodable_def path_set_code)

lemma encodable_query: "encodable special_query_set"
  by (auto simp: encodable_def special_query_set_code)

lemma encodable_fragment: "encodable fragment_set"
  by (auto simp: encodable_def fragment_set_code)

section \<open>Decimal numbers\<close>

lemma digits_acc_append: "digits_acc fuel n acc = digits_acc fuel n [] @ acc"
proof (induction fuel arbitrary: n acc)
  case 0
  then show ?case by simp
next
  case (Suc fuel)
  show ?case
    using Suc.IH [of "n div 10" "char_of (48 + n mod 10) # acc"]
          Suc.IH [of "n div 10" "[char_of (48 + n mod 10)]"]
    by simp
qed

lemma nat_of_digits_snoc: "nat_of_digits (s @ [c]) = 10 * nat_of_digits s + (code c - 48)"
  by (simp add: nat_of_digits_def)

lemma digits_acc_value:
  "n < fuel \<Longrightarrow> nat_of_digits (digits_acc fuel n []) = n \<and> list_all is_digit (digits_acc fuel n [])
     \<and> digits_acc fuel n [] \<noteq> []"
proof (induction fuel arbitrary: n)
  case 0
  then show ?case by simp
next
  case (Suc fuel)
  show ?case
  proof (cases "n < 10")
    case True
    then show ?thesis
      by (simp add: nat_of_digits_def is_digit_def code_char_of)
  next
    case False
    then have "n div 10 < fuel" using Suc.prems by auto
    from Suc.IH [OF this] False show ?thesis
      using digits_acc_append [of fuel "n div 10" "[char_of (48 + n mod 10)]"]
      by (simp add: nat_of_digits_snoc is_digit_def code_char_of)
  qed
qed

lemma nat_of_string_of_nat: "nat_of_digits (string_of_nat n) = n"
  using digits_acc_value [of n "Suc n"] by (simp add: string_of_nat_def)

lemma string_of_nat_digits: "list_all is_digit (string_of_nat n)"
  using digits_acc_value [of n "Suc n"] by (simp add: string_of_nat_def)

lemma string_of_nat_nonempty: "string_of_nat n \<noteq> []"
  using digits_acc_value [of n "Suc n"] by (simp add: string_of_nat_def)

section \<open>What the parser produces\<close>

lemma split_slashes_no_slash:
  "list_all (\<lambda>c. \<not> is_slash c) acc \<Longrightarrow>
   list_all (list_all (\<lambda>c. \<not> is_slash c)) (split_slashes acc s)"
  by (induction s arbitrary: acc) auto

lemma split_slashes_nonempty: "split_slashes acc s \<noteq> []"
  by (induction s arbitrary: acc) auto

lemma percent_encode_keeps:
  assumes "\<And>c. S c \<Longrightarrow> \<not> P c" "\<not> P (CHR ''%'')"
    and "\<And>x. (48 \<le> code x \<and> code x \<le> 57) \<or> (65 \<le> code x \<and> code x \<le> 70) \<Longrightarrow> \<not> P x"
    and "list_all (\<lambda>c. \<not> P c) s"
  shows "list_all (\<lambda>c. \<not> P c) (percent_encode S s)"
proof -
  have "\<not> P x" if "b \<in> set (utf8 c)" "x \<in> set (percent_byte b)" for c b x
  proof -
    have "x = CHR ''%''" if "code x = 37"
      using that by (simp add: code_inj [of x] code_def)
    then show ?thesis
      using percent_byte_chars [OF utf8_bytes [OF that(1)] that(2)] assms(2,3) by blast
  qed
  then show ?thesis
    using assms(4) by (auto simp: percent_encode_def list_all_iff)
qed

lemma encoded_segment_no_slash:
  assumes "list_all (\<lambda>c. \<not> is_slash c) s"
  shows "list_all (\<lambda>c. \<not> path_set c \<and> \<not> is_slash c) (percent_encode path_set s)"
proof -
  have "list_all (\<lambda>c. \<not> is_slash c) (percent_encode path_set s)"
    by (rule percent_encode_keeps [where P = is_slash]) (use assms in \<open>auto simp: is_slash_code path_set_code code_def\<close>)
  with percent_encode_clean [OF encodable_path, of s] show ?thesis
    by (auto simp: list_all_iff)
qed

lemma path_segments_clean:
  assumes "list_all clean_segment p" "list_all (list_all (\<lambda>c. \<not> is_slash c)) ss"
  shows "list_all clean_segment (path_segments p ss)"
  using assms
proof (induction p ss rule: path_segments.induct)
  case (1 p)
  then show ?case by simp
next
  case (2 p s ss)
  have e: "clean_segment []"
    by (simp add: clean_segment_def is_single_dot_def is_double_dot_def)
  have b: "list_all clean_segment (butlast p)"
    using "2.prems"(1) by (auto simp: list_all_iff dest: in_set_butlastD)
  have s: "clean_segment (percent_encode path_set s)"
    if "\<not> is_single_dot (percent_encode path_set s)" "\<not> is_double_dot (percent_encode path_set s)"
    using "2.prems"(2) that by (simp add: encoded_segment_no_slash clean_segment_def)
  show ?case
    using 2 e b s by (simp add: Let_def)
qed

lemma path_segments_nonempty: "ss \<noteq> [] \<Longrightarrow> path_segments p ss \<noteq> []"
proof (induction p ss rule: path_segments.induct)
  case (1 p)
  then show ?case by simp
next
  case (2 p s ss)
  show ?case
  proof (cases "ss = []")
    case True
    then show ?thesis by (simp add: Let_def)
  next
    case False
    with 2 show ?thesis by (simp add: Let_def)
  qed
qed

lemma parse_path_clean: "list_all clean_segment (parse_path s) \<and> parse_path s \<noteq> []"
  unfolding parse_path_def
  by (simp add: path_segments_clean split_slashes_no_slash path_segments_nonempty split_slashes_nonempty)

lemma parse_port_range:
  "parse_port sch s = Some (Some p) \<Longrightarrow> p \<le> 65535 \<and> Some p \<noteq> default_port sch"
  by (auto simp: parse_port_def split: if_splits)

lemma split_credentials_clean:
  "split_credentials auth = Some (user, pass, hostport) \<Longrightarrow>
   list_all (\<lambda>c. \<not> userinfo_set c) user \<and> list_all (\<lambda>c. \<not> userinfo_set c) pass"
  by (auto simp: split_credentials_def Let_def percent_encode_clean [OF encodable_userinfo]
           split: if_splits)

lemma new_URL_canonical:
  assumes "host_parser_ok hp" "new_URL hp s = Some u"
  shows "canonical hp u"
proof -
  from assms(2) obtain sch r where ps: "parse_scheme (url_preprocess s) = Some (sch, r)"
    by (auto simp: new_URL_def split: option.splits)
  with assms(2) have sch: "sch = ''http'' \<or> sch = ''https''"
    by (auto simp: new_URL_def split: option.splits if_splits)
  define r1 where "r1 = dropWhile is_slash r"
  define auth where "auth = takeWhile (\<lambda>c. \<not> is_authority_end c) r1"
  define rest where "rest = dropWhile (\<lambda>c. \<not> is_authority_end c) r1"
  from assms(2) ps sch obtain user pass hostport where
    sc: "split_credentials auth = Some (user, pass, hostport)"
    by (fastforce simp: new_URL_def Let_def r1_def auth_def split: option.splits if_splits)
  from assms(2) ps sch sc obtain h where h: "hp (fst (host_split False hostport)) = Some h"
    by (fastforce simp: new_URL_def Let_def r1_def auth_def split: option.splits if_splits)
  from assms(2) ps sch sc h obtain prt where
    prt: "parse_port sch (case snd (host_split False hostport) of None \<Rightarrow> [] | Some p \<Rightarrow> p) = Some prt"
    by (fastforce simp: new_URL_def Let_def r1_def auth_def split: option.splits if_splits)
  from assms(2) ps sch sc h prt have u:
    "u = \<lparr>scheme = sch, username = user, password = pass, host = h, port = prt,
          path = parse_path (takeWhile (\<lambda>c. c \<noteq> CHR ''?'' \<and> c \<noteq> CHR ''#'') rest),
          query = parse_query (dropWhile (\<lambda>c. c \<noteq> CHR ''?'' \<and> c \<noteq> CHR ''#'') rest),
          fragment = parse_fragment rest\<rparr>"
    by (auto simp: new_URL_def Let_def r1_def auth_def rest_def split: option.splits if_splits)
  have hh: "host_shape h \<and> hp h = Some h"
    using assms(1) h unfolding host_parser_ok_def by blast
  have pp: "case prt of None \<Rightarrow> True | Some p \<Rightarrow> p \<le> 65535 \<and> Some p \<noteq> default_port sch"
    using prt by (cases prt) (auto dest: parse_port_range)
  have q: "case parse_query x of None \<Rightarrow> True | Some q \<Rightarrow> list_all (\<lambda>c. \<not> special_query_set c) q" for x
    by (simp add: parse_query_def percent_encode_clean [OF encodable_query])
  have f: "case parse_fragment x of None \<Rightarrow> True | Some q \<Rightarrow> list_all (\<lambda>c. \<not> fragment_set c) q" for x
    by (simp add: parse_fragment_def Let_def percent_encode_clean [OF encodable_fragment])
  show ?thesis
    unfolding canonical_def u
    using sch split_credentials_clean [OF sc] hh pp parse_path_clean q f
    by (simp split: option.splits)
qed

section \<open>Parsing a serialized URL\<close>

lemma until_append:
  assumes "list_all P xs" "ys = [] \<or> \<not> P (hd ys)"
  shows "takeWhile P (xs @ ys) = xs" and "dropWhile P (xs @ ys) = ys"
proof -
  have t: "takeWhile P ys = []" and d: "dropWhile P ys = ys"
    using assms(2) by (cases ys; simp)+
  show "takeWhile P (xs @ ys) = xs"
    using assms(1) t by (simp add: takeWhile_append2 list_all_iff)
  show "dropWhile P (xs @ ys) = ys"
    using assms(1) d by (simp add: dropWhile_append2 list_all_iff)
qed

lemma url_preprocess_printable:
  assumes "list_all printable s"
  shows "url_preprocess s = s"
proof -
  have n: "\<not> is_c0_or_space c" "\<not> is_tab_or_newline c" if "printable c" for c
    using that by (auto simp: printable_def is_c0_or_space_def is_tab_or_newline_def)
  have d: "dropWhile is_c0_or_space x = x" if "list_all printable x" for x
    using that n by (cases x) auto
  have "rev (dropWhile is_c0_or_space (rev (dropWhile is_c0_or_space s))) = s"
    using assms by (simp add: d)
  moreover have "filter (\<lambda>c. \<not> is_tab_or_newline c) s = s"
    using assms n by (auto simp: list_all_iff)
  ultimately show ?thesis
    by (simp add: url_preprocess_def)
qed

lemma parse_scheme_serialized:
  assumes "sch = ''http'' \<or> sch = ''https''"
  shows "parse_scheme (sch @ ''://'' @ y) = Some (sch, ''//'' @ y)"
  using assms
  by (auto simp: parse_scheme_def Let_def is_alpha_def is_scheme_char_def code_def ascii_lower_def)

lemma host_split_plain:
  "list_all (\<lambda>c. c \<notin> set '':[]'') h \<Longrightarrow>
   host_split inside (h @ r) = (h @ fst (host_split inside r), snd (host_split inside r))"
  by (induction h arbitrary: inside) (auto simp: Let_def)

lemma host_split_bracketed:
  "list_all (\<lambda>c. c \<notin> set ''[]'') body \<Longrightarrow>
   host_split True (body @ CHR '']'' # r)
     = (body @ CHR '']'' # fst (host_split False r), snd (host_split False r))"
  by (induction body) (auto simp: Let_def)

lemma bracket_form:
  assumes "2 \<le> length h" "hd h = a" "last h = b"
  shows "h = a # butlast (tl h) @ [b]"
proof (cases h)
  case Nil
  with assms(1) show ?thesis by simp
next
  case (Cons x t)
  with assms(1) have t: "t \<noteq> []" by auto
  from Cons assms(2) have x: "x = a" by simp
  from Cons t assms(3) have "last t = b" by simp
  with append_butlast_last_id [OF t] have "butlast t @ [b] = t" by (simp only:)
  with Cons x show ?thesis by simp
qed

lemma host_split_shape:
  assumes "host_shape h"
  shows "host_split False (h @ r) = (h @ fst (host_split False r), snd (host_split False r))"
proof -
  from assms consider (plain) "list_all (\<lambda>c. c \<notin> set '':[]'') h"
    | (br) "2 \<le> length h" "hd h = CHR ''[''" "last h = CHR '']''"
           "list_all (\<lambda>c. c \<notin> set ''[]'') (butlast (tl h))"
    unfolding host_shape_def by blast
  then show ?thesis
  proof cases
    case plain
    then show ?thesis by (rule host_split_plain)
  next
    case br
    define body where "body = butlast (tl h)"
    have hh: "h = CHR ''['' # body @ [CHR '']'']"
      using bracket_form [OF br(1,2,3)] by (simp only: body_def)
    have b: "list_all (\<lambda>c. c \<notin> set ''[]'') body"
      using br(4) by (simp only: body_def)
    show ?thesis
      unfolding hh using host_split_bracketed [OF b, of r] by (simp add: Let_def)
  qed
qed

lemma host_shape_chars:
  assumes "host_shape h" "c \<in> set h"
  shows "printable c" "\<not> is_authority_end c" "c \<noteq> CHR ''@''" "\<not> is_slash c"
  using assms
  by (auto simp: host_shape_def list_all_iff host_char_def printable_def
                 is_authority_end_def is_slash_def)

lemma userinfo_chars:
  assumes "\<not> userinfo_set c"
  shows "printable c" "\<not> is_authority_end c" "c \<noteq> CHR ''@''" "c \<noteq> CHR '':''" "\<not> is_slash c"
  using assms
  by (auto simp: userinfo_set_code printable_def is_authority_end_code is_slash_code code_def)

lemma digit_chars:
  assumes "is_digit c"
  shows "printable c" "\<not> is_authority_end c" "c \<noteq> CHR ''@''" "c \<noteq> CHR '':''"
  using assms
  by (auto simp: is_digit_def printable_def is_authority_end_code code_def)

lemma split_credentials_serialized:
  assumes "list_all (\<lambda>c. \<not> userinfo_set c) user" "list_all (\<lambda>c. \<not> userinfo_set c) pass"
    and "CHR ''@'' \<notin> set hostport" "hostport \<noteq> []"
  shows "split_credentials
           ((if user \<noteq> [] \<or> pass \<noteq> []
             then user @ (if pass \<noteq> [] then '':'' @ pass else []) @ ''@'' else []) @ hostport)
         = Some (user, pass, hostport)"
proof (cases "user \<noteq> [] \<or> pass \<noteq> []")
  case False
  then show ?thesis using assms(3) by (simp add: split_credentials_def)
next
  case True
  define cr where "cr = user @ (if pass \<noteq> [] then '':'' @ pass else [])"
  have a: "(if user \<noteq> [] \<or> pass \<noteq> []
             then user @ (if pass \<noteq> [] then '':'' @ pass else []) @ ''@'' else []) @ hostport
           = cr @ CHR ''@'' # hostport"
    using True by (simp add: cr_def)
  have r: "rev (cr @ CHR ''@'' # hostport) = rev hostport @ CHR ''@'' # rev cr"
    by simp
  have nh: "list_all (\<lambda>c. c \<noteq> CHR ''@'') (rev hostport)"
    using assms(3) by (auto simp: list_all_iff)
  have t: "takeWhile (\<lambda>c. c \<noteq> CHR ''@'') (rev (cr @ CHR ''@'' # hostport)) = rev hostport"
    unfolding r using until_append(1) [OF nh, of "CHR ''@'' # rev cr"] by simp
  have d: "dropWhile (\<lambda>c. c \<noteq> CHR ''@'') (rev (cr @ CHR ''@'' # hostport)) = CHR ''@'' # rev cr"
    unfolding r using until_append(2) [OF nh, of "CHR ''@'' # rev cr"] by simp
  have nu: "list_all (\<lambda>c. c \<noteq> CHR '':'') user"
    using assms(1) userinfo_chars(4) by (auto simp: list_all_iff)
  have tu: "takeWhile (\<lambda>c. c \<noteq> CHR '':'') cr = user"
    using until_append(1) [OF nu, of "if pass \<noteq> [] then '':'' @ pass else []"]
    by (simp add: cr_def)
  have du: "drop 1 (dropWhile (\<lambda>c. c \<noteq> CHR '':'') cr) = pass"
    using until_append(2) [OF nu, of "if pass \<noteq> [] then '':'' @ pass else []"]
    by (simp add: cr_def)
  show ?thesis
    unfolding a
    using t d tu du assms(1,2,4)
    by (simp add: split_credentials_def Let_def percent_encode_id)
qed

lemma parse_port_serialized:
  assumes "sch = ''http'' \<or> sch = ''https''"
    and "case prt of None \<Rightarrow> True | Some p \<Rightarrow> p \<le> 65535 \<and> Some p \<noteq> default_port sch"
  shows "parse_port sch (case prt of None \<Rightarrow> [] | Some p \<Rightarrow> string_of_nat p) = Some prt"
  using assms
  by (cases prt)
     (auto simp: parse_port_def nat_of_string_of_nat string_of_nat_digits string_of_nat_nonempty)

lemma new_URL_authority:
  assumes c: "canonical hp u" and pr: "list_all printable rest"
    and re: "rest = [] \<or> is_authority_end (hd rest)"
  shows "new_URL hp (authority_string u @ rest)
         = Some \<lparr>scheme = scheme u, username = username u, password = password u,
                 host = host u, port = port u,
                 path = parse_path (takeWhile (\<lambda>c. c \<noteq> CHR ''?'' \<and> c \<noteq> CHR ''#'') rest),
                 query = parse_query (dropWhile (\<lambda>c. c \<noteq> CHR ''?'' \<and> c \<noteq> CHR ''#'') rest),
                 fragment = parse_fragment rest\<rparr>"
proof -
  define ps where "ps = (case port u of None \<Rightarrow> [] | Some p \<Rightarrow> '':'' @ string_of_nat p)"
  define hostport where "hostport = host u @ ps"
  define cr where "cr = (if username u \<noteq> [] \<or> password u \<noteq> []
        then username u @ (if password u \<noteq> [] then '':'' @ password u else []) @ ''@''
        else [])"
  have sch: "scheme u = ''http'' \<or> scheme u = ''https''"
    and us: "list_all (\<lambda>c. \<not> userinfo_set c) (username u)"
    and pw: "list_all (\<lambda>c. \<not> userinfo_set c) (password u)"
    and hs: "host_shape (host u)" and hp: "hp (host u) = Some (host u)"
    and po: "case port u of None \<Rightarrow> True | Some p \<Rightarrow> p \<le> 65535 \<and> Some p \<noteq> default_port (scheme u)"
    using c by (simp_all add: canonical_def)
  have a: "authority_string u @ rest = scheme u @ ''://'' @ (cr @ hostport) @ rest"
    by (simp add: authority_string_def cr_def hostport_def ps_def)
  have ps_chars: "printable x \<and> \<not> is_authority_end x \<and> x \<noteq> CHR ''@''" if "x \<in> set ps" for x
  proof (cases "port u")
    case None
    with that show ?thesis by (simp add: ps_def)
  next
    case (Some p)
    with that have "x = CHR '':'' \<or> is_digit x"
      using string_of_nat_digits [of p] by (auto simp: ps_def list_all_iff)
    then show ?thesis
      using digit_chars(1,2,3) [of x]
      by (auto simp: printable_def is_authority_end_code code_def)
  qed
  have hostport_chars: "printable x \<and> \<not> is_authority_end x \<and> x \<noteq> CHR ''@''"
    if "x \<in> set hostport" for x
    using that ps_chars host_shape_chars(1,2,3) [OF hs] by (auto simp: hostport_def)
  have cr_chars: "printable x \<and> \<not> is_authority_end x" if "x \<in> set cr" for x
  proof -
    from that have "x \<in> set (username u) \<or> x \<in> set (password u) \<or> x = CHR '':'' \<or> x = CHR ''@''"
      by (auto simp: cr_def split: if_splits)
    then show ?thesis
      using us pw userinfo_chars(1,2) [of x]
      by (auto simp: list_all_iff printable_def is_authority_end_code code_def)
  qed
  have hostport_ne: "hostport \<noteq> []"
    using hs by (simp add: hostport_def host_shape_def)
  have sch_pr: "list_all printable (scheme u @ ''://'')"
    using sch by (auto simp: printable_def code_def)
  have "list_all printable (authority_string u @ rest)"
    unfolding a using sch_pr pr cr_chars hostport_chars by (auto simp: list_all_iff)
  then have pre: "url_preprocess (authority_string u @ rest) = scheme u @ ''://'' @ (cr @ hostport) @ rest"
    using url_preprocess_printable a by simp
  have hd_ns: "\<not> is_slash (hd ((cr @ hostport) @ rest))"
  proof -
    have "hd ((cr @ hostport) @ rest) \<in> set (cr @ hostport)"
      using hostport_ne by (cases "cr @ hostport") auto
    then show ?thesis
      using cr_chars hostport_chars by (auto simp: is_authority_end_def)
  qed
  have ne: "(cr @ hostport) @ rest \<noteq> []"
    using hostport_ne by simp
  have dw: "dropWhile is_slash (''//'' @ (cr @ hostport) @ rest) = (cr @ hostport) @ rest"
    using hd_ns ne by (cases "(cr @ hostport) @ rest") (auto simp: is_slash_def)
  have na: "list_all (\<lambda>c. \<not> is_authority_end c) (cr @ hostport)"
    using cr_chars hostport_chars by (auto simp: list_all_iff)
  have re': "rest = [] \<or> \<not> \<not> is_authority_end (hd rest)"
    using re by simp
  note ua = until_append [OF na re']
  have no_at: "CHR ''@'' \<notin> set hostport"
    using hostport_chars by blast
  have sc: "split_credentials (cr @ hostport) = Some (username u, password u, hostport)"
    unfolding cr_def by (rule split_credentials_serialized [OF us pw no_at hostport_ne])
  have hsp: "host_split False hostport
             = (host u, case port u of None \<Rightarrow> None | Some p \<Rightarrow> Some (string_of_nat p))"
    unfolding hostport_def
    using host_split_shape [OF hs, of "[]"] host_split_shape [OF hs, of ps]
    by (cases "port u") (simp_all add: ps_def)
  have hne: "host u \<noteq> []"
    using hs by (simp add: host_shape_def)
  have pp: "parse_port (scheme u)
              (case (case port u of None \<Rightarrow> None | Some p \<Rightarrow> Some (string_of_nat p)) of
                 None \<Rightarrow> [] | Some p \<Rightarrow> p) = Some (port u)"
    using parse_port_serialized [OF sch po] by (cases "port u") simp_all
  show ?thesis
    unfolding new_URL_def pre parse_scheme_serialized [OF sch]
    using sch dw ua sc hsp hne hp pp
    by (simp add: Let_def)
qed

lemma serialize_path_simps:
  "serialize_path [] = []"
  "serialize_path (seg # segs) = CHR ''/'' # seg @ serialize_path segs"
  by (simp_all add: serialize_path_def)

lemma split_slashes_segment:
  "list_all (\<lambda>c. \<not> is_slash c) seg \<Longrightarrow> split_slashes acc (seg @ r) = split_slashes (rev seg @ acc) r"
  by (induction seg arbitrary: acc) auto

lemma split_slashes_serialized:
  "list_all (list_all (\<lambda>c. \<not> is_slash c)) segs \<Longrightarrow>
   split_slashes acc (serialize_path segs) = rev acc # segs"
proof (induction segs arbitrary: acc)
  case Nil
  then show ?case by (simp add: serialize_path_simps)
next
  case (Cons seg segs)
  have "split_slashes [] (seg @ serialize_path segs) = seg # segs"
    using Cons by (simp add: split_slashes_segment)
  then show ?case by (simp add: is_slash_def serialize_path_simps)
qed

lemma path_segments_serialized:
  "list_all clean_segment segs \<Longrightarrow> path_segments p segs = p @ segs"
  by (induction segs arbitrary: p)
     (auto simp: clean_segment_def Let_def percent_encode_id list_all_iff)

lemma clean_segment_no_slash: "clean_segment seg \<Longrightarrow> list_all (\<lambda>c. \<not> is_slash c) seg"
  by (auto simp: clean_segment_def list_all_iff)

lemma parse_path_serialized:
  assumes "segs \<noteq> []" "list_all clean_segment segs"
  shows "parse_path (serialize_path segs) = segs"
proof -
  obtain seg rest where s: "segs = seg # rest" using assms(1) by (cases segs) auto
  have ns: "list_all (list_all (\<lambda>c. \<not> is_slash c)) segs"
    using assms(2) clean_segment_no_slash by (auto simp: list_all_iff)
  have "split_slashes [] (seg @ serialize_path rest) = seg # rest"
    using ns s split_slashes_serialized [of rest "rev seg"]
    by (simp add: split_slashes_segment)
  moreover have "path_segments [] (seg # rest) = seg # rest"
    using path_segments_serialized [of "seg # rest" "[]"] assms(2) s by simp
  ultimately show ?thesis
    using s by (simp add: parse_path_def is_slash_def serialize_path_simps del: path_segments.simps)
qed

lemma parse_path_empty: "parse_path [] = [[]]"
  by (simp add: parse_path_def percent_encode_def is_single_dot_def is_double_dot_def)

lemma path_chars:
  assumes "list_all clean_segment segs" "x \<in> set (serialize_path segs)"
  shows "printable x" "x \<noteq> CHR ''?''" "x \<noteq> CHR ''#''"
proof -
  from assms have "x = CHR ''/'' \<or> \<not> path_set x"
    by (induction segs) (auto simp: clean_segment_def list_all_iff serialize_path_simps)
  then show "printable x" "x \<noteq> CHR ''?''" "x \<noteq> CHR ''#''"
    by (auto simp: path_set_code printable_def code_def)
qed

lemma query_chars:
  assumes "\<not> special_query_set x"
  shows "printable x" "x \<noteq> CHR ''#''"
  using assms by (auto simp: special_query_set_code printable_def code_def)

lemma fragment_chars: "\<not> fragment_set x \<Longrightarrow> printable x"
  by (auto simp: fragment_set_code printable_def)

lemma url_toString_split:
  "url_toString u = authority_string u
     @ serialize_path (path u)
     @ (case query u of None \<Rightarrow> [] | Some q \<Rightarrow> ''?'' @ q)
     @ (case fragment u of None \<Rightarrow> [] | Some f \<Rightarrow> ''#'' @ f)"
  by (simp add: url_toString_def authority_string_def)

lemma new_URL_serialized:
  assumes c: "canonical hp u"
  shows "new_URL hp (url_toString u) = Some u"
proof -
  define pstr where "pstr = serialize_path (path u)"
  define qs where "qs = (case query u of None \<Rightarrow> [] | Some q \<Rightarrow> ''?'' @ q)"
  define fs where "fs = (case fragment u of None \<Rightarrow> [] | Some f \<Rightarrow> ''#'' @ f)"
  have pne: "path u \<noteq> []" and pc: "list_all clean_segment (path u)"
    and qc: "case query u of None \<Rightarrow> True | Some q \<Rightarrow> list_all (\<lambda>c. \<not> special_query_set c) q"
    and fc: "case fragment u of None \<Rightarrow> True | Some f \<Rightarrow> list_all (\<lambda>c. \<not> fragment_set c) f"
    using c by (simp_all add: canonical_def)
  have p1: "list_all (\<lambda>c. c \<noteq> CHR ''?'' \<and> c \<noteq> CHR ''#'') pstr" and p2: "list_all printable pstr"
    and p3: "list_all (\<lambda>c. c \<noteq> CHR ''#'') pstr"
    using path_chars [OF pc] by (auto simp: pstr_def list_all_iff)
  have q2: "list_all printable qs" and q3: "list_all (\<lambda>c. c \<noteq> CHR ''#'') qs"
    using qc query_chars by (auto simp: qs_def list_all_iff printable_def code_def split: option.splits)
  have f2: "list_all printable fs"
    using fc fragment_chars by (auto simp: fs_def list_all_iff printable_def code_def split: option.splits)
  have hd_p: "pstr \<noteq> [] \<and> hd pstr = CHR ''/''"
    using pne by (cases "path u") (auto simp: pstr_def serialize_path_simps)
  have rest_pr: "list_all printable (pstr @ qs @ fs)"
    using p2 q2 f2 by simp
  have rest_hd: "pstr @ qs @ fs = [] \<or> is_authority_end (hd (pstr @ qs @ fs))"
    using hd_p by (simp add: is_authority_end_def is_slash_def)
  have qf: "qs @ fs = [] \<or> \<not> (hd (qs @ fs) \<noteq> CHR ''?'' \<and> hd (qs @ fs) \<noteq> CHR ''#'')"
    by (auto simp: qs_def fs_def split: option.splits)
  note up = until_append [OF p1 qf]
  have path: "parse_path pstr = path u"
    unfolding pstr_def by (rule parse_path_serialized [OF pne pc])
  have query: "parse_query (qs @ fs) = query u"
  proof (cases "query u")
    case None
    then show ?thesis
      by (auto simp: parse_query_def qs_def fs_def split: option.splits)
  next
    case (Some q)
    with qc have "list_all (\<lambda>c. \<not> special_query_set c) q" by simp
    moreover from this have "list_all (\<lambda>c. c \<noteq> CHR ''#'') q"
      using query_chars(2) by (auto simp: list_all_iff)
    moreover have "fs = [] \<or> \<not> hd fs \<noteq> CHR ''#''"
      by (auto simp: fs_def split: option.splits)
    ultimately show ?thesis
      using Some until_append(1) [of "\<lambda>c. c \<noteq> CHR ''#''" q fs]
      by (simp add: parse_query_def qs_def percent_encode_id)
  qed
  have frag: "parse_fragment (pstr @ qs @ fs) = fragment u"
  proof -
    have "list_all (\<lambda>c. c \<noteq> CHR ''#'') (pstr @ qs)" using p3 q3 by simp
    moreover have "fs = [] \<or> \<not> hd fs \<noteq> CHR ''#''"
      by (auto simp: fs_def split: option.splits)
    ultimately have "dropWhile (\<lambda>c. c \<noteq> CHR ''#'') (pstr @ qs @ fs) = fs"
      using until_append(2) [of "\<lambda>c. c \<noteq> CHR ''#''" "pstr @ qs" fs] by simp
    then show ?thesis
      using fc by (cases "fragment u") (simp_all add: parse_fragment_def fs_def percent_encode_id)
  qed
  have "url_toString u = authority_string u @ (pstr @ qs @ fs)"
    by (simp add: url_toString_split pstr_def qs_def fs_def)
  then show ?thesis
    using new_URL_authority [OF c rest_pr rest_hd] up path query frag by simp
qed

lemma new_URL_authority_only:
  assumes c: "canonical hp u"
  shows "new_URL hp (authority_string u) = Some (u\<lparr>path := [[]], query := None, fragment := None\<rparr>)"
  using new_URL_authority [OF c, of "[]"]
  by (simp add: parse_path_empty parse_query_def parse_fragment_def)

section \<open>Lowercasing a serialized URL\<close>

lemma printable_lower: "printable c \<Longrightarrow> js_lower_char c = ascii_lower c \<and> printable (ascii_lower c)"
  by (auto simp: printable_def js_lower_ascii ascii_lower_code)

lemma toLowerCase_printable: "list_all printable s \<Longrightarrow> toLowerCase s = map ascii_lower s"
  by (induction s) (auto simp: toLowerCase_def printable_lower)

lemma ascii_lower_eq_iff:
  assumes "\<not> (65 \<le> code d \<and> code d \<le> 90)" "\<not> (97 \<le> code d \<and> code d \<le> 122)"
  shows "ascii_lower c = d \<longleftrightarrow> c = d"
  using assms code_lt [of c]
  by (auto simp: code_inj [of _ d] ascii_lower_code)

lemma lower_sets:
  "\<not> userinfo_set c \<Longrightarrow> \<not> userinfo_set (ascii_lower c)"
  "\<not> path_set c \<Longrightarrow> \<not> path_set (ascii_lower c)"
  "\<not> special_query_set c \<Longrightarrow> \<not> special_query_set (ascii_lower c)"
  "\<not> fragment_set c \<Longrightarrow> \<not> fragment_set (ascii_lower c)"
  "\<not> is_slash c \<Longrightarrow> \<not> is_slash (ascii_lower c)"
  by (auto simp: userinfo_set_code path_set_code special_query_set_code fragment_set_code
                 is_slash_code ascii_lower_code)

lemma map_lower_idem: "map ascii_lower (map ascii_lower s) = map ascii_lower s"
  by (simp add: ascii_lower_idem)

lemma clean_segment_lower: "clean_segment seg \<Longrightarrow> clean_segment (map ascii_lower seg)"
  by (auto simp: clean_segment_def list_all_iff lower_sets is_single_dot_def is_double_dot_def
                 map_lower_idem simp del: map_map)

lemma host_chars_lower: "list_all host_char h \<Longrightarrow> map ascii_lower h = h"
  by (induction h) (auto simp: host_char_def ascii_lower_def)

lemma host_lower: "host_shape h \<Longrightarrow> map ascii_lower h = h"
  by (simp add: host_shape_def host_chars_lower)

lemma digits_lower: "list_all is_digit s \<Longrightarrow> map ascii_lower s = s"
  by (induction s) (auto simp: is_digit_def ascii_lower_def)

lemma canonical_lower:
  assumes "canonical hp u"
  shows "canonical hp (lower_url u)"
  using assms
  by (auto simp: canonical_def lower_url_def list_all_iff lower_sets clean_segment_lower
           split: option.splits)

lemma map_lower_path:
  "map ascii_lower (serialize_path segs)
   = serialize_path (map (map ascii_lower) segs)"
  by (induction segs) (auto simp: ascii_lower_def code_def serialize_path_simps)

lemma url_toString_lower:
  assumes "canonical hp u"
  shows "map ascii_lower (url_toString u) = url_toString (lower_url u)"
proof -
  have sch: "map ascii_lower (scheme u) = scheme u"
    using assms by (auto simp: canonical_def ascii_lower_def code_def)
  have h: "map ascii_lower (host u) = host u"
    using assms by (simp add: canonical_def host_lower)
  have p: "map ascii_lower (string_of_nat n) = string_of_nat n" for n
    by (simp add: digits_lower string_of_nat_digits)
  have l: "ascii_lower (CHR '':'') = CHR '':''" "ascii_lower (CHR ''/'') = CHR ''/''"
    "ascii_lower (CHR ''@'') = CHR ''@''" "ascii_lower (CHR ''?'') = CHR ''?''"
    "ascii_lower (CHR ''#'') = CHR ''#''"
    by (simp_all add: ascii_lower_def code_def)
  show ?thesis
    by (simp add: url_toString_def lower_url_def sch h p l map_lower_path
             split: option.splits)
qed

lemma canonical_printable:
  assumes "canonical hp u"
  shows "list_all printable (url_toString u)"
proof -
  have sch: "list_all printable (scheme u @ ''://'')"
    using assms by (auto simp: canonical_def printable_def code_def)
  have l: "printable (CHR '':'')" "printable (CHR ''@'')" "printable (CHR ''?'')" "printable (CHR ''#'')"
    by (simp_all add: printable_def code_def)
  have us: "list_all printable (username u)" "list_all printable (password u)"
    using assms userinfo_chars(1) by (auto simp: canonical_def list_all_iff)
  have h: "list_all printable (host u)"
    using assms host_shape_chars(1) by (auto simp: canonical_def list_all_iff)
  have p: "list_all printable (string_of_nat n)" for n
    using string_of_nat_digits [of n] digit_chars(1) by (auto simp: list_all_iff)
  have pa: "list_all printable (serialize_path (path u))"
    using assms path_chars(1) [of "path u"] by (auto simp: canonical_def list_all_iff)
  have q: "list_all printable q" if "query u = Some q" for q
    using assms that query_chars(1) by (auto simp: canonical_def list_all_iff)
  have f: "list_all printable f" if "fragment u = Some f" for f
    using assms that fragment_chars by (auto simp: canonical_def list_all_iff)
  show ?thesis
    using sch l us h p pa q f
    by (simp add: url_toString_def split: option.splits)
qed

section \<open>The shape of a normalized URL\<close>

lemma endsWith_slash: "endsWith s ''/'' \<longleftrightarrow> s \<noteq> [] \<and> last s = CHR ''/''"
proof (cases "s = []")
  case True
  then show ?thesis by (simp add: endsWith_def)
next
  case False
  then obtain ys y where "s = ys @ [y]"
    by (cases s rule: rev_cases) auto
  then show ?thesis
    by (auto simp: endsWith_def)
qed

text \<open>The step \<^verbatim>\<open>if (normalized.endsWith('/')) normalized = normalized.slice(0, -1)\<close>.\<close>

lemma strip_lower:
  "map ascii_lower (if endsWith s ''/'' then butlast s else s)
   = (if endsWith (map ascii_lower s) ''/'' then butlast (map ascii_lower s) else map ascii_lower s)"
proof -
  have "ascii_lower c = CHR ''/'' \<longleftrightarrow> c = CHR ''/''" for c
    by (rule ascii_lower_eq_iff) (simp_all add: code_def)
  then show ?thesis
    by (cases "s = []") (simp_all add: endsWith_slash last_map map_butlast)
qed

lemma normalizeUrl_SomeD:
  assumes "normalizeUrl hp x = Some n"
  obtains u where
    "new_URL hp (if has_http_scheme (js_trim x) then js_trim x else ''https://'' @ js_trim x) = Some u"
    "n = toLowerCase (if endsWith (url_toString (clear_hash u)) ''/''
                      then butlast (url_toString (clear_hash u)) else url_toString (clear_hash u))"
  using assms
  by (auto simp: normalizeUrl_def Let_def split: if_splits option.splits)

lemma canonical_clear_hash: "canonical hp u \<Longrightarrow> canonical hp (clear_hash u)"
  by (simp add: canonical_def clear_hash_def split: option.splits)

lemma serialize_path_snoc: "serialize_path (ps @ [seg]) = serialize_path ps @ CHR ''/'' # seg"
  by (simp add: serialize_path_def)

lemma clean_segment_last: "clean_segment seg \<Longrightarrow> seg \<noteq> [] \<Longrightarrow> last seg \<noteq> CHR ''/''"
  by (auto simp: clean_segment_def list_all_iff is_slash_def dest: last_in_set)

lemma authority_string_last:
  assumes "canonical hp v"
  shows "authority_string v \<noteq> [] \<and> last (authority_string v) \<noteq> CHR ''/''"
proof (cases "port v")
  case None
  have "host v \<noteq> []" and "last (host v) \<noteq> CHR ''/''"
    using assms host_shape_chars(4) [of "host v" "last (host v)"]
    by (auto simp: canonical_def host_shape_def is_slash_def)
  with None show ?thesis by (simp add: authority_string_def)
next
  case (Some p)
  have "is_digit (last (string_of_nat p))"
    using string_of_nat_digits [of p] string_of_nat_nonempty [of p]
    by (auto simp: list_all_iff)
  then have "last (string_of_nat p) \<noteq> CHR ''/''"
    by (auto simp: is_digit_def code_def)
  with Some string_of_nat_nonempty [of p] show ?thesis
    by (simp add: authority_string_def)
qed

text \<open>What is left of the serialization of a canonical URL without fragment when one slash
  is taken off its end: again a serialization, or the authority alone.\<close>

lemma stripped_serialization:
  assumes c: "canonical hp v" and f: "fragment v = None"
  defines "n \<equiv> (if endsWith (url_toString v) ''/'' then butlast (url_toString v) else url_toString v)"
  shows "\<exists>w. canonical hp w \<and> fragment w = None \<and> new_URL hp n = Some w
            \<and> (n = url_toString w \<or> (url_toString w = n @ ''/'' \<and> n = authority_string w))"
proof (cases "endsWith (url_toString v) ''/''")
  case False
  then show ?thesis
    using c f new_URL_serialized [OF c] by (auto simp: n_def)
next
  case True
  have pne: "path v \<noteq> []" and pc: "list_all clean_segment (path v)"
    using c by (simp_all add: canonical_def)
  obtain ps seg where ps: "path v = ps @ [seg]"
    using pne by (cases "path v" rule: rev_cases) auto
  show ?thesis
  proof (cases "query v")
    case None
    have s: "url_toString v = authority_string v @ serialize_path ps @ CHR ''/'' # seg"
      using None f ps by (simp add: url_toString_split serialize_path_snoc)
    have seg: "seg = []"
    proof (rule ccontr)
      assume "seg \<noteq> []"
      moreover from this have "last seg \<noteq> CHR ''/''"
        using pc ps by (simp add: clean_segment_last)
      ultimately show False
        using True by (simp add: s endsWith_slash)
    qed
    have n: "n = authority_string v @ serialize_path ps"
      using True by (simp add: n_def s seg butlast_append)
    show ?thesis
    proof (cases "ps = []")
      case True
      have "v\<lparr>path := [[]], query := None, fragment := None\<rparr> = v"
        using True ps seg None f by simp
      then have "new_URL hp n = Some v"
        using new_URL_authority_only [OF c] n True by (simp add: serialize_path_def)
      moreover have "url_toString v = n @ ''/''" "n = authority_string v"
        using n True s seg by (simp_all add: serialize_path_def)
      ultimately show ?thesis
        using c f by blast
    next
      case False
      define w where "w = v\<lparr>path := ps\<rparr>"
      have cw: "canonical hp w"
        using c False pc ps by (simp add: canonical_def w_def split: option.splits)
      have "n = url_toString w"
        using n None f by (simp add: url_toString_split w_def authority_string_def)
      then show ?thesis
        using cw f new_URL_serialized [OF cw] by (auto simp: w_def)
    qed
  next
    case (Some q)
    have s: "url_toString v = authority_string v @ serialize_path (path v) @ CHR ''?'' # q"
      using Some f by (simp add: url_toString_split)
    have q: "q \<noteq> [] \<and> last q = CHR ''/''"
      using True by (cases "q = []") (simp_all add: s endsWith_slash)
    define w where "w = v\<lparr>query := Some (butlast q)\<rparr>"
    have cw: "canonical hp w"
      using c Some by (auto simp: canonical_def w_def list_all_iff dest: in_set_butlastD split: option.splits)
    have "n = authority_string v @ serialize_path (path v) @ CHR ''?'' # butlast q"
      using True q by (simp add: n_def s butlast_append)
    then have "n = url_toString w"
      using f by (simp add: url_toString_split w_def authority_string_def)
    then show ?thesis
      using cw f new_URL_serialized [OF cw] by (auto simp: w_def)
  qed
qed

lemma normalizeUrl_form:
  assumes ok: "host_parser_ok hp" and n: "normalizeUrl hp x = Some n"
  shows "\<exists>w. canonical hp w \<and> fragment w = None \<and> new_URL hp n = Some w
            \<and> (n = url_toString w \<or> (url_toString w = n @ ''/'' \<and> n = authority_string w))
            \<and> list_all printable n \<and> map ascii_lower n = n"
proof -
  from n obtain u where
    u: "new_URL hp (if has_http_scheme (js_trim x) then js_trim x else ''https://'' @ js_trim x) = Some u"
    and nu: "n = toLowerCase (if endsWith (url_toString (clear_hash u)) ''/''
                      then butlast (url_toString (clear_hash u)) else url_toString (clear_hash u))"
    by (rule normalizeUrl_SomeD)
  define s0 where "s0 = url_toString (clear_hash u)"
  define v where "v = lower_url (clear_hash u)"
  have c0: "canonical hp (clear_hash u)"
    using new_URL_canonical [OF ok u] by (rule canonical_clear_hash)
  have cv: "canonical hp v"
    unfolding v_def using c0 by (rule canonical_lower)
  have fv: "fragment v = None"
    by (simp add: v_def lower_url_def clear_hash_def)
  have p0: "list_all printable s0"
    unfolding s0_def using c0 by (rule canonical_printable)
  then have p1: "list_all printable (if endsWith s0 ''/'' then butlast s0 else s0)"
    by (auto simp: list_all_iff dest: in_set_butlastD)
  have n1: "n = map ascii_lower (if endsWith s0 ''/'' then butlast s0 else s0)"
    using toLowerCase_printable [OF p1] nu unfolding s0_def by simp
  have sv: "map ascii_lower s0 = url_toString v"
    unfolding s0_def v_def using c0 by (rule url_toString_lower)
  have n2: "n = (if endsWith (url_toString v) ''/'' then butlast (url_toString v) else url_toString v)"
    unfolding n1 strip_lower sv ..
  have pn: "list_all printable n"
    unfolding n1 using p1 printable_lower by (auto simp: list_all_iff)
  have ln: "map ascii_lower n = n"
    unfolding n1 by (simp add: ascii_lower_idem)
  show ?thesis
    using stripped_serialization [OF cv fv] pn ln unfolding n2 [symmetric] by blast
qed

section \<open>The host parser for ASCII domains\<close>

lemma startsWith_ci_lower: "startsWith_ci (map ascii_lower s) p = startsWith_ci s p"
  by (simp add: startsWith_ci_def take_map ascii_lower_idem comp_def)

lemma lower_dot: "ascii_lower c = CHR ''.'' \<longleftrightarrow> c = CHR ''.''"
  by (rule ascii_lower_eq_iff) (simp_all add: code_def)

lemma punycode_at_lower: "punycode_at st (map ascii_lower s) = punycode_at st s"
proof (induction s arbitrary: st)
  case Nil
  then show ?case by simp
next
  case (Cons c cs)
  have "startsWith_ci (ascii_lower c # map ascii_lower cs) ''xn--'' = startsWith_ci (c # cs) ''xn--''"
    using startsWith_ci_lower [of "c # cs" "''xn--''"] by simp
  with Cons show ?case by (simp add: lower_dot)
qed

lemma domain_char_lower:
  assumes "is_domain_char c"
  shows "is_domain_char (ascii_lower c)" "host_char (ascii_lower c)" "ascii_lower c \<notin> set '':[]''"
proof -
  have d: "is_alpha c \<or> is_digit c \<or> code c = 45 \<or> code c = 46"
    using assms by (auto simp: is_domain_char_def code_def)
  have e: "x = CHR ''-'' \<longleftrightarrow> code x = 45" "x = CHR ''.'' \<longleftrightarrow> code x = 46"
    "x = CHR '':'' \<longleftrightarrow> code x = 58" "x = CHR ''['' \<longleftrightarrow> code x = 91"
    "x = CHR '']'' \<longleftrightarrow> code x = 93" "x = CHR ''/'' \<longleftrightarrow> code x = 47"
    "x = CHR ''?'' \<longleftrightarrow> code x = 63" "x = CHR ''#'' \<longleftrightarrow> code x = 35"
    "x = CHR ''@'' \<longleftrightarrow> code x = 64" "x = CHR 0x5C \<longleftrightarrow> code x = 92" for x
    by (simp_all add: code_inj [of x] code_def)
  show "is_domain_char (ascii_lower c)" "host_char (ascii_lower c)" "ascii_lower c \<notin> set '':[]''"
    using d
    by (auto simp: is_domain_char_def is_alpha_def is_digit_def host_char_def ascii_lower_code e)
qed

lemma alpha_lower: "is_alpha c \<Longrightarrow> is_alpha (ascii_lower c)"
  by (auto simp: is_alpha_def ascii_lower_code)

lemma last_label_lower:
  "rev (takeWhile (\<lambda>c. c \<noteq> CHR ''.'') (rev (map ascii_lower b)))
   = map ascii_lower (rev (takeWhile (\<lambda>c. c \<noteq> CHR ''.'') (rev b)))"
  by (simp add: rev_map takeWhile_map comp_def lower_dot)

lemma ascii_domain_ok: "host_parser_ok ascii_domain"
  unfolding host_parser_ok_def
proof (intro allI impI)
  fix b h
  assume a: "ascii_domain b = Some h"
  define l where "l = rev (takeWhile (\<lambda>c. c \<noteq> CHR ''.'') (rev b))"
  from a have h: "h = map ascii_lower b" and dc: "list_all is_domain_char b"
    and ln: "l \<noteq> []" and la: "is_alpha (hd l)" and np: "\<not> punycode_at True b"
    by (auto simp: ascii_domain_def Let_def l_def split: if_splits)
  have bne: "b \<noteq> []" using ln by (auto simp: l_def)
  have shape: "host_shape h"
    using dc bne domain_char_lower(2,3) by (auto simp: host_shape_def h list_all_iff)
  have "list_all is_domain_char h"
    using dc domain_char_lower(1) by (auto simp: h list_all_iff)
  moreover have "rev (takeWhile (\<lambda>c. c \<noteq> CHR ''.'') (rev h)) = map ascii_lower l"
    unfolding h l_def by (rule last_label_lower)
  moreover have "map ascii_lower l \<noteq> []" "is_alpha (hd (map ascii_lower l))"
    using ln la by (simp_all add: hd_map alpha_lower)
  moreover have "\<not> punycode_at True h"
    using np by (simp add: h punycode_at_lower)
  moreover have "map ascii_lower h = h"
    by (simp add: h ascii_lower_idem)
  ultimately have "ascii_domain h = Some h"
    by (simp add: ascii_domain_def Let_def)
  with shape show "host_shape h \<and> ascii_domain h = Some h" by simp
qed

section \<open>Normalizing twice\<close>

lemma js_trim_printable:
  assumes "list_all printable s"
  shows "js_trim s = s"
proof -
  have n: "\<not> js_whitespace c" if "printable c" for c
    using that by (auto simp: printable_def js_whitespace_def)
  have d: "dropWhile js_whitespace x = x" if "list_all printable x" for x
    using that n by (cases x) auto
  show ?thesis
    using assms by (simp add: js_trim_def d)
qed

lemma has_http_scheme_authority:
  assumes "canonical hp w"
  shows "has_http_scheme (authority_string w @ r)" "authority_string w @ r \<noteq> []"
  using assms
  by (auto simp: canonical_def has_http_scheme_def startsWith_ci_def authority_string_def)

lemma normalizeUrl_twice:
  assumes ok: "host_parser_ok hp" and n: "normalizeUrl hp x = Some n"
  shows "normalizeUrl hp n = Some (if endsWith n ''/'' then butlast n else n)"
proof -
  from normalizeUrl_form [OF ok n] obtain w where
    c: "canonical hp w" and f: "fragment w = None" and p: "new_URL hp n = Some w"
    and s: "n = url_toString w \<or> (url_toString w = n @ ''/'' \<and> n = authority_string w)"
    and pn: "list_all printable n" and ln: "map ascii_lower n = n"
    by blast
  have a: "\<exists>r. n = authority_string w @ r"
    using s by (auto simp: url_toString_split)
  then have hs: "has_http_scheme n" and ne: "n \<noteq> []"
    using has_http_scheme_authority [OF c] by auto
  have ch: "clear_hash w = w"
    using f by (simp add: clear_hash_def)
  have pb: "list_all printable (if endsWith n ''/'' then butlast n else n)"
    using pn by (auto simp: list_all_iff dest: in_set_butlastD)
  have lb: "toLowerCase (if endsWith n ''/'' then butlast n else n)
            = (if endsWith n ''/'' then butlast n else n)"
    unfolding toLowerCase_printable [OF pb] strip_lower ln ..
  have r: "normalizeUrl hp n
           = Some (toLowerCase (if endsWith (url_toString w) ''/''
                                then butlast (url_toString w) else url_toString w))"
    using ne hs p ch by (simp add: normalizeUrl_def js_trim_printable [OF pn] Let_def)
  from s show ?thesis
  proof
    assume e: "n = url_toString w"
    from r have "normalizeUrl hp n = Some (toLowerCase (if endsWith n ''/'' then butlast n else n))"
      unfolding e [symmetric] .
    then show ?thesis unfolding lb .
  next
    assume b: "url_toString w = n @ ''/'' \<and> n = authority_string w"
    then have ns: "\<not> endsWith n ''/''"
      using authority_string_last [OF c] by (simp add: endsWith_slash)
    have tl: "toLowerCase n = n"
      using toLowerCase_printable [OF pn] ln by simp
    have "(if endsWith (url_toString w) ''/'' then butlast (url_toString w) else url_toString w) = n"
      using b by (simp add: endsWith_slash)
    with r tl ns show ?thesis by simp
  qed
qed

section \<open>The scope of the URL model\<close>

text \<open>The model of \<^verbatim>\<open>new URL\<close> covers the schemes http and https. The service never gives
  it anything else: the candidate \<^verbatim>\<open>normalizeUrl\<close> builds starts with one of the two
  schemes, and so does every normalized URL, which is what the other calls pass.\<close>

lemma startsWith_ci_split:
  assumes "startsWith_ci s p"
  obtains q r where "s = q @ r" "length q = length p" "map ascii_lower q = map ascii_lower p"
proof
  show "s = take (length p) s @ drop (length p) s" by simp
  show "map ascii_lower (take (length p) s) = map ascii_lower p"
    using assms by (simp add: startsWith_ci_def)
  then show "length (take (length p) s) = length p"
    using map_eq_imp_length_eq by blast
qed

lemma lower_letter:
  assumes "ascii_lower c = d" "97 \<le> code d" "code d \<le> 122"
  shows "is_alpha c" "c \<noteq> CHR '':''" "\<not> is_c0_or_space c" "\<not> is_tab_or_newline c" "is_scheme_char c"
proof -
  have c: "97 \<le> code c \<and> code c \<le> 122 \<or> 65 \<le> code c \<and> code c \<le> 90"
    using assms ascii_lower_code [of c] by (auto split: if_splits)
  then show "is_alpha c" "c \<noteq> CHR '':''" "\<not> is_c0_or_space c" "\<not> is_tab_or_newline c"
    "is_scheme_char c"
    by (auto simp: is_alpha_def is_scheme_char_def is_c0_or_space_def is_tab_or_newline_def code_def)
qed

lemma lower_colon: "ascii_lower c = CHR '':'' \<longleftrightarrow> c = CHR '':''"
  by (rule ascii_lower_eq_iff) (simp_all add: code_def)

lemma lower_slash: "ascii_lower c = CHR ''/'' \<longleftrightarrow> c = CHR ''/''"
  by (rule ascii_lower_eq_iff) (simp_all add: code_def)

lemma preprocess_keeps_prefix:
  assumes "q \<noteq> []" "\<not> is_c0_or_space (hd q)" "\<not> is_c0_or_space (last q)"
    and "list_all (\<lambda>c. \<not> is_tab_or_newline c) q"
  shows "\<exists>r'. url_preprocess (q @ r) = q @ r'"
proof -
  have d1: "dropWhile is_c0_or_space (q @ r) = q @ r"
    using assms(1,2) by (cases q) auto
  have "\<exists>r1. dropWhile is_c0_or_space (rev r @ rev q) = r1 @ rev q"
  proof (cases "\<forall>x\<in>set (rev r). is_c0_or_space x")
    case True
    then have "dropWhile is_c0_or_space (rev r @ rev q) = dropWhile is_c0_or_space (rev q)"
      by (simp add: dropWhile_append)
    also have "\<dots> = rev q"
      using assms(1,3) by (cases "rev q") (auto simp: hd_rev)
    finally show ?thesis by simp
  next
    case False
    then have "dropWhile is_c0_or_space (rev r @ rev q) = dropWhile is_c0_or_space (rev r) @ rev q"
      by (subst dropWhile_append) auto
    then show ?thesis by blast
  qed
  then obtain r1 where "dropWhile is_c0_or_space (rev (q @ r)) = r1 @ rev q"
    by auto
  then have "rev (dropWhile is_c0_or_space (rev (dropWhile is_c0_or_space (q @ r)))) = q @ rev r1"
    by (simp add: d1)
  moreover have "filter (\<lambda>c. \<not> is_tab_or_newline c) q = q"
    using assms(4) by (simp add: list_all_iff)
  ultimately show ?thesis
    by (simp add: url_preprocess_def)
qed

lemma scheme_of_candidate:
  assumes "has_http_scheme s"
  shows "\<exists>sch r. parse_scheme (url_preprocess s) = Some (sch, r) \<and> (sch = ''http'' \<or> sch = ''https'')"
proof -
  have l: "code (CHR ''h'') = 104" "code (CHR ''t'') = 116" "code (CHR ''p'') = 112"
    "code (CHR ''s'') = 115" "code (CHR '':'') = 58" "code (CHR ''/'') = 47"
    by (simp_all add: code_def)
  have lit: "map ascii_lower ''http://'' = ''http://''" "map ascii_lower ''https://'' = ''https://''"
    by (simp_all add: ascii_lower_def code_def)
  from assms consider "startsWith_ci s ''http://''" | "startsWith_ci s ''https://''"
    by (auto simp: has_http_scheme_def)
  then show ?thesis
  proof cases
    case 1
    then obtain q r where s: "s = q @ r" and n: "length q = length ''http://''"
      and m: "map ascii_lower q = map ascii_lower ''http://''"
      by (rule startsWith_ci_split)
    from n obtain a b c d e f g where q: "q = [a, b, c, d, e, f, g]"
      by (auto simp: length_Suc_conv)
    from m [unfolded lit q] have lo': "ascii_lower a = CHR ''h''" "ascii_lower b = CHR ''t''"
      "ascii_lower c = CHR ''t''" "ascii_lower d = CHR ''p''" "ascii_lower e = CHR '':''"
      "ascii_lower f = CHR ''/''" "ascii_lower g = CHR ''/''"
      by simp_all
    have lo: "ascii_lower a = CHR ''h''" "ascii_lower b = CHR ''t''"
      "ascii_lower c = CHR ''t''" "ascii_lower d = CHR ''p''" "e = CHR '':''" "f = CHR ''/''" "g = CHR ''/''"
      using lo' lower_colon [of e] lower_slash [of f] lower_slash [of g] by blast+
    note fa = lower_letter [OF lo(1)] lower_letter [OF lo(2)] lower_letter [OF lo(3)] lower_letter [OF lo(4)]
    have "\<exists>r'. url_preprocess (q @ r) = q @ r'"
      by (rule preprocess_keeps_prefix)
         (use fa lo(5-7) in \<open>simp_all add: q l is_c0_or_space_def is_tab_or_newline_def\<close>)
    then obtain r' where p: "url_preprocess s = [a, b, c, d] @ CHR '':'' # CHR ''/'' # CHR ''/'' # r'"
      by (auto simp: s q lo)
    have "parse_scheme (url_preprocess s) = Some (''http'', CHR ''/'' # CHR ''/'' # r')"
      unfolding p parse_scheme_def using fa lo(1-4)
      by (simp add: l)
    then show ?thesis by blast
  next
    case 2
    then obtain q r where s: "s = q @ r" and n: "length q = length ''https://''"
      and m: "map ascii_lower q = map ascii_lower ''https://''"
      by (rule startsWith_ci_split)
    from n obtain a b c d x e f g where q: "q = [a, b, c, d, x, e, f, g]"
      by (auto simp: length_Suc_conv)
    from m [unfolded lit q] have lo': "ascii_lower a = CHR ''h''" "ascii_lower b = CHR ''t''"
      "ascii_lower c = CHR ''t''" "ascii_lower d = CHR ''p''" "ascii_lower x = CHR ''s''"
      "ascii_lower e = CHR '':''" "ascii_lower f = CHR ''/''" "ascii_lower g = CHR ''/''"
      by simp_all
    have lo: "ascii_lower a = CHR ''h''" "ascii_lower b = CHR ''t''"
      "ascii_lower c = CHR ''t''" "ascii_lower d = CHR ''p''" "ascii_lower x = CHR ''s''"
      "e = CHR '':''" "f = CHR ''/''" "g = CHR ''/''"
      using lo' lower_colon [of e] lower_slash [of f] lower_slash [of g] by blast+
    note fa = lower_letter [OF lo(1)] lower_letter [OF lo(2)] lower_letter [OF lo(3)]
      lower_letter [OF lo(4)] lower_letter [OF lo(5)]
    have "\<exists>r'. url_preprocess (q @ r) = q @ r'"
      by (rule preprocess_keeps_prefix)
         (use fa lo(6-8) in \<open>simp_all add: q l is_c0_or_space_def is_tab_or_newline_def\<close>)
    then obtain r' where p: "url_preprocess s = [a, b, c, d, x] @ CHR '':'' # CHR ''/'' # CHR ''/'' # r'"
      by (auto simp: s q lo)
    have "parse_scheme (url_preprocess s) = Some (''https'', CHR ''/'' # CHR ''/'' # r')"
      unfolding p parse_scheme_def using fa lo(1-5)
      by (simp add: l)
    then show ?thesis by blast
  qed
qed

lemma candidate_has_http_scheme:
  "has_http_scheme (if has_http_scheme t then t else ''https://'' @ t)"
  by (simp add: has_http_scheme_def startsWith_ci_def)

lemma new_URL_scheme:
  assumes "new_URL hp s = Some u"
  shows "scheme u = ''http'' \<or> scheme u = ''https''" and "path u \<noteq> []"
  using assms parse_path_clean
  by (auto simp: new_URL_def Let_def split: option.splits if_splits prod.splits)

lemma normalized_has_http_scheme:
  assumes "normalizeUrl hp x = Some n"
  shows "has_http_scheme n"
proof -
  from assms obtain u where
    u: "new_URL hp (if has_http_scheme (js_trim x) then js_trim x else ''https://'' @ js_trim x) = Some u"
    and n: "n = toLowerCase (if endsWith (url_toString (clear_hash u)) ''/''
                      then butlast (url_toString (clear_hash u)) else url_toString (clear_hash u))"
    by (rule normalizeUrl_SomeD)
  obtain seg segs where p: "path u = seg # segs"
    using new_URL_scheme(2) [OF u] by (cases "path u") auto
  define pre where "pre = scheme u @ ''://''"
  obtain t where s: "url_toString (clear_hash u) = pre @ t" and t: "t \<noteq> []"
    by (simp add: url_toString_def clear_hash_def pre_def p serialize_path_simps)
  have "\<exists>t'. (if endsWith (pre @ t) ''/'' then butlast (pre @ t) else pre @ t) = pre @ t'"
    using t by (simp add: butlast_append)
  then obtain t' where "(if endsWith (pre @ t) ''/'' then butlast (pre @ t) else pre @ t) = pre @ t'"
    by blast
  then have "n = toLowerCase (pre @ t')"
    unfolding n s by (simp only:)
  then have "n = toLowerCase pre @ toLowerCase t'"
    by (simp add: toLowerCase_def)
  moreover have "toLowerCase pre = ''http://'' \<or> toLowerCase pre = ''https://''"
    using new_URL_scheme(1) [OF u]
    by (auto simp: pre_def toLowerCase_def js_lower_char_def code_def)
  ultimately show ?thesis
    by (auto simp: has_http_scheme_def startsWith_ci_def)
qed

section \<open>Idempotence of normalizeUrl (C1)\<close>

lemma example_normalized:
  "normalizeUrl ascii_domain ''example.com//'' = Some ''https://example.com/''"
  by code_simp

lemma example_normalized_twice:
  "normalizeUrl ascii_domain ''https://example.com/'' = Some ''https://example.com''"
  by code_simp

text \<open>C1, as stated, fails: normalizing \<^verbatim>\<open>example.com//\<close> gives \<^verbatim>\<open>https://example.com/\<close>,
  and normalizing that gives \<^verbatim>\<open>https://example.com\<close>.\<close>

theorem normalizeUrl_not_idempotent:
  "normalizeUrl ascii_domain ''example.com//'' = Some ''https://example.com/''
   \<and> normalize_twice ascii_domain ''example.com//'' = Some ''https://example.com''
   \<and> normalize_twice ascii_domain ''example.com//'' \<noteq> normalizeUrl ascii_domain ''example.com//''"
  by (simp add: normalize_twice_def example_normalized example_normalized_twice)

text \<open>C1, amended: normalizing a normalized URL again takes one more slash off its end if
  there is one and changes nothing else; so \<^verbatim>\<open>normalize(normalize(x))\<close> equals
  \<^verbatim>\<open>normalize(x)\<close> exactly when \<^verbatim>\<open>normalize(x)\<close> is absent or does not end in a slash.\<close>

theorem normalizeUrl_idempotent_up_to_slash:
  assumes "host_parser_ok hp"
  shows "(\<forall>n. normalizeUrl hp x = Some n \<longrightarrow>
            normalize_twice hp x = Some (if endsWith n ''/'' then butlast n else n))
         \<and> (normalize_twice hp x = normalizeUrl hp x
            \<longleftrightarrow> (case normalizeUrl hp x of None \<Rightarrow> True | Some n \<Rightarrow> \<not> endsWith n ''/''))"
proof (cases "normalizeUrl hp x")
  case None
  then show ?thesis by (simp add: normalize_twice_def)
next
  case (Some n)
  have t: "normalize_twice hp x = Some (if endsWith n ''/'' then butlast n else n)"
    using normalizeUrl_twice [OF assms Some] Some by (simp add: normalize_twice_def)
  have "butlast n \<noteq> n" if "endsWith n ''/''"
    using that by (cases n rule: rev_cases) (auto simp: endsWith_slash)
  with t Some show ?thesis by auto
qed

lemma path_example_normalized:
  "normalizeUrl ascii_domain ''EXAMPLE.com/Path/'' = Some ''https://example.com/path''"
  by code_simp

theorem normalizeUrl_idempotent_up_to_slash_witness:
  "host_parser_ok ascii_domain
   \<and> normalizeUrl ascii_domain ''EXAMPLE.com/Path/'' = Some ''https://example.com/path''
   \<and> \<not> endsWith ''https://example.com/path'' ''/''
   \<and> normalize_twice ascii_domain ''EXAMPLE.com/Path/'' = Some ''https://example.com/path''"
  using normalizeUrl_idempotent_up_to_slash [OF ascii_domain_ok, of "''EXAMPLE.com/Path/''"]
        ascii_domain_ok path_example_normalized
  by (simp add: endsWith_def)

section \<open>The refresh of the cache (C3)\<close>

text \<open>C3: a refresh is atomic. When the fetch, the status check or the read of the body
  fails, \<^verbatim>\<open>fetchFeed\<close> only clears the marker \<^verbatim>\<open>loading\<close> and leaves \<^verbatim>\<open>urlMap\<close>,
  \<^verbatim>\<open>hostMap\<close> and \<^verbatim>\<open>lastFetched\<close> as they were, also in the runtime where the refresh
  settles; its promise is rejected with that error, and so is every \<^verbatim>\<open>await\<close> of a caller
  that holds it. Only a refresh that succeeds replaces the two maps and the time together,
  and clears the marker as well. The parse of the body has no way to fail.\<close>

theorem fetchFeed_atomic:
  "(\<forall>err. fetchFeed_try hp outcome = Inl err \<longrightarrow>
      fetchFeed_end hp c outcome now = (c\<lparr>loading := None\<rparr>, Inl err)
      \<and> (\<forall>p. await_loaded (Pending p) (snd (fetchFeed_end hp c outcome now)) = Inl err)
      \<and> (\<forall>w p. p \<in> set (refreshing w) \<longrightarrow> c = cache w \<longrightarrow>
             urlMap (cache (step hp w (Settle p outcome now))) = urlMap (cache w)
             \<and> hostMap (cache (step hp w (Settle p outcome now))) = hostMap (cache w)
             \<and> lastFetched (cache (step hp w (Settle p outcome now))) = lastFetched (cache w)
             \<and> loading (cache (step hp w (Settle p outcome now))) = None))
   \<and> (\<forall>um hm. fetchFeed_try hp outcome = Inr (um, hm) \<longrightarrow>
      fetchFeed_end hp c outcome now
        = (\<lparr>lastFetched = now, loading = None, urlMap = um, hostMap = hm\<rparr>, Inr (um, hm, now)))
   \<and> ((\<exists>err. fetchFeed_try hp outcome = Inl err)
      \<longleftrightarrow> (case outcome of
             FetchRejected err \<Rightarrow> True
           | Responded status body \<Rightarrow> \<not> resp_ok status \<or> (\<exists>err. body = Inl err)))"
  by (auto simp: fetchFeed_end_def fetchFeed_try_def split: fetch_outcome.splits sum.splits)

theorem fetchFeed_atomic_witness:
  "fetchFeed_try ascii_domain (Responded 503 (Inr [])) = Inl (Error ''URLHaus responded with 503'')
   \<and> fetchFeed_end ascii_domain
        \<lparr>lastFetched = 5, loading = Some 0, urlMap = Map.empty, hostMap = Map.empty\<rparr>
        (Responded 503 (Inr [])) 7
       = (\<lparr>lastFetched = 5, loading = None, urlMap = Map.empty, hostMap = Map.empty\<rparr>,
          Inl (Error ''URLHaus responded with 503''))"
proof -
  have "string_of_nat 503 = ''503''"
    by code_simp
  then have t: "fetchFeed_try ascii_domain (Responded 503 (Inr []))
           = Inl (Error ''URLHaus responded with 503'')"
    by (simp add: fetchFeed_try_def resp_ok_def)
  from fetchFeed_atomic [of ascii_domain "Responded 503 (Inr [])"
        "\<lparr>lastFetched = 5, loading = Some 0, urlMap = Map.empty, hostMap = Map.empty\<rparr>" 7] t
  show ?thesis by simp
qed

section \<open>Single flight (C4)\<close>

lemma load_cases:
  "load w now =
     (if isFresh (cache w) now
      then (w, Ready (urlMap (cache w), hostMap (cache w), lastFetched (cache w)))
      else case loading (cache w) of
             Some p \<Rightarrow> (w, Pending p)
           | None \<Rightarrow>
               (w\<lparr>cache := (cache w)\<lparr>loading := Some (length (requests w))\<rparr>,
                  requests := requests w @ [URLHAUS_FEED],
                  refreshing := refreshing w @ [length (requests w)]\<rparr>,
                Pending (length (requests w))))"
  by (simp add: load_def fetchFeed_begin_def split: option.splits)

lemma single_flight_step: "single_flight w \<Longrightarrow> single_flight (step hp w ev)"
proof (cases ev)
  case (Load now)
  assume "single_flight w"
  then show ?thesis
    by (auto simp: Load load_cases single_flight_def split: option.splits)
next
  case (Settle p outcome now)
  assume "single_flight w"
  then show ?thesis
    by (auto simp: Settle single_flight_def fetchFeed_end_def split: option.splits sum.splits)
next
  case (Request address)
  assume "single_flight w"
  then show ?thesis
    by (simp add: Request single_flight_def)
qed

lemma single_flight_run: "single_flight w \<Longrightarrow> single_flight (run hp w evs)"
  unfolding run_def by (induction evs arbitrary: w) (simp_all add: single_flight_step)

lemma single_flight_initial: "single_flight initial_runtime"
  by (simp add: single_flight_def initial_runtime_def new_UrlhausCache_def)

lemma loads_joined:
  assumes "loading (cache w) = Some p" "\<forall>t\<in>set ts. \<not> isFresh (cache w) t"
  shows "loads w ts = (w, replicate (length ts) (Pending p))"
  using assms by (induction ts) (simp_all add: load_cases)

lemma loads_started:
  assumes "loading (cache w) = None" "\<forall>t\<in>set ts. \<not> isFresh (cache w) t" "ts \<noteq> []"
  shows "loads w ts =
           (w\<lparr>cache := (cache w)\<lparr>loading := Some (length (requests w))\<rparr>,
              requests := requests w @ [URLHAUS_FEED],
              refreshing := refreshing w @ [length (requests w)]\<rparr>,
            replicate (length ts) (Pending (length (requests w))))"
proof -
  obtain t ts' where ts: "ts = t # ts'" using assms(3) by (cases ts) auto
  define w1 where "w1 = w\<lparr>cache := (cache w)\<lparr>loading := Some (length (requests w))\<rparr>,
              requests := requests w @ [URLHAUS_FEED],
              refreshing := refreshing w @ [length (requests w)]\<rparr>"
  have l: "load w t = (w1, Pending (length (requests w)))"
    using assms(1,2) ts by (simp add: load_cases w1_def)
  have "loads w1 ts' = (w1, replicate (length ts') (Pending (length (requests w))))"
    using assms(2) ts by (intro loads_joined) (simp_all add: w1_def isFresh_def)
  with l show ?thesis
    by (simp add: ts w1_def)
qed

lemma check_begin_load:
  "check_begin hp w t inputUrl = (w', Inr (n, key, l)) \<Longrightarrow> load w t = (w', l)"
  by (auto simp: check_begin_def Let_def split: option.splits prod.splits)

text \<open>C4: in every state the runtime reaches from its start, under any sequence of calls
  of \<^verbatim>\<open>load\<close>, of settling refreshes and of other requests going out, at most one refresh
  is under way, the one the marker \<^verbatim>\<open>loading\<close> names. A burst of calls of \<^verbatim>\<open>load\<close> at times when the snapshot is stale,
  with a refresh under way, leaves the runtime as it is (no request goes out) and hands every
  caller the promise of that refresh. Without a refresh under way, the first call of the
  burst issues the one request to the feed and all callers get the promise of that refresh.
  \<^verbatim>\<open>check\<close> reaches the cache through \<^verbatim>\<open>load\<close> only.\<close>

theorem single_flight_coalescing:
  "(let w = run hp initial_runtime evs in
      length (refreshing w) \<le> 1
      \<and> refreshing w = (case loading (cache w) of None \<Rightarrow> [] | Some p \<Rightarrow> [p])
      \<and> (\<forall>p ts. loading (cache w) = Some p \<longrightarrow> (\<forall>t\<in>set ts. \<not> isFresh (cache w) t) \<longrightarrow>
             loads w ts = (w, replicate (length ts) (Pending p)))
      \<and> (\<forall>ts. loading (cache w) = None \<longrightarrow> ts \<noteq> [] \<longrightarrow> (\<forall>t\<in>set ts. \<not> isFresh (cache w) t) \<longrightarrow>
             snd (loads w ts) = replicate (length ts) (Pending (length (requests w)))
             \<and> requests (fst (loads w ts)) = requests w @ [URLHAUS_FEED]
             \<and> refreshing (fst (loads w ts)) = [length (requests w)]
             \<and> loading (cache (fst (loads w ts))) = Some (length (requests w)))
      \<and> (\<forall>t inputUrl w' n key l.
             check_begin hp w t inputUrl = (w', Inr (n, key, l)) \<longrightarrow> load w t = (w', l)))"
proof -
  define w where "w = run hp initial_runtime evs"
  have sf: "single_flight w"
    unfolding w_def by (rule single_flight_run [OF single_flight_initial])
  then have r: "refreshing w = (case loading (cache w) of None \<Rightarrow> [] | Some p \<Rightarrow> [p])"
    by (simp add: single_flight_def)
  then have le: "length (refreshing w) \<le> 1"
    by (simp split: option.splits)
  have started: "snd (loads w ts) = replicate (length ts) (Pending (length (requests w)))
             \<and> requests (fst (loads w ts)) = requests w @ [URLHAUS_FEED]
             \<and> refreshing (fst (loads w ts)) = [length (requests w)]
             \<and> loading (cache (fst (loads w ts))) = Some (length (requests w))"
    if "loading (cache w) = None" "ts \<noteq> []" "\<forall>t\<in>set ts. \<not> isFresh (cache w) t" for ts
    using loads_started [OF that(1,3,2)] r that(1) by simp
  show ?thesis
    unfolding w_def [symmetric] Let_def
    using le r loads_joined started check_begin_load by blast
qed

theorem single_flight_coalescing_witness:
  "loading (cache (run ascii_domain initial_runtime [Load 1700000000000])) = Some 0
   \<and> \<not> isFresh (cache (run ascii_domain initial_runtime [Load 1700000000000])) 1700000000001
   \<and> requests (run ascii_domain initial_runtime [Load 1700000000000]) = [URLHAUS_FEED]
   \<and> refreshing (run ascii_domain initial_runtime [Load 1700000000000]) = [0]
   \<and> loads (run ascii_domain initial_runtime [Load 1700000000000]) [1700000000001, 1700000000001]
       = (run ascii_domain initial_runtime [Load 1700000000000], [Pending 0, Pending 0])"
proof -
  define w where "w = run ascii_domain initial_runtime [Load 1700000000000]"
  have l: "loading (cache w) = Some 0" and f: "\<not> isFresh (cache w) 1700000000001"
    and q: "requests w = [URLHAUS_FEED]"
    by (simp_all add: w_def run_def load_cases initial_runtime_def new_UrlhausCache_def
                      isFresh_def URLHAUS_TTL_MS_def)
  have s: "\<forall>t\<in>set [1700000000001, 1700000000001]. \<not> isFresh (cache w) t"
    using f by simp
  from single_flight_coalescing [of ascii_domain "[Load 1700000000000]"]
  have r: "refreshing w = (case loading (cache w) of None \<Rightarrow> [] | Some p \<Rightarrow> [p])"
    and j: "\<And>p ts. loading (cache w) = Some p \<Longrightarrow> (\<forall>t\<in>set ts. \<not> isFresh (cache w) t) \<Longrightarrow>
             loads w ts = (w, replicate (length ts) (Pending p))"
    unfolding w_def [symmetric] Let_def by blast+
  have "loads w [1700000000001, 1700000000001] = (w, [Pending 0, Pending 0])"
    using j [OF l s] by (simp del: loads.simps add: numeral_2_eq_2)
  with l f q r show ?thesis
    unfolding w_def [symmetric] by simp
qed

section \<open>The host index (C6, C10)\<close>

lemma feed_line_record:
  "feed_line hp maps line =
     (case line_record hp line of
        None \<Rightarrow> maps
      | Some (n, e, None) \<Rightarrow> ((fst maps)(n \<mapsto> e), snd maps)
      | Some (n, e, Some h) \<Rightarrow>
          ((fst maps)(n \<mapsto> e),
           (snd maps)(h \<mapsto> (if length (entries_of (snd maps) h) < 5
                              then entries_of (snd maps) h @ [e] else entries_of (snd maps) h))))"
  by (cases maps)
     (simp add: feed_line_def line_record_def Let_def entries_of_def split: option.splits)

lemma line_entries_record:
  "line_entries hp h line =
     (case line_record hp line of
        Some (n, e, Some h') \<Rightarrow> if h' = h then [e] else []
      | _ \<Rightarrow> [])"
  by (simp add: line_entries_def feed_line_record entries_of_def split: option.splits)

lemma feed_line_entries:
  "entries_of (snd (feed_line hp maps line)) h =
     (if length (entries_of (snd maps) h) < 5
      then entries_of (snd maps) h @ line_entries hp h line
      else entries_of (snd maps) h)"
  by (auto simp: feed_line_record line_entries_record entries_of_def split: option.splits)

lemma line_entries_length: "length (line_entries hp h line) \<le> 1"
  by (simp add: line_entries_record split: option.splits)

lemma feed_fold_entries:
  assumes "length (entries_of (snd maps) h) \<le> 5"
  shows "entries_of (snd (foldl (feed_line hp) maps lines)) h
         = take 5 (entries_of (snd maps) h @ concat (map (line_entries hp h) lines))"
  using assms
proof (induction lines arbitrary: maps)
  case Nil
  then show ?case by simp
next
  case (Cons line lines)
  let ?old = "entries_of (snd maps) h" and ?es = "line_entries hp h line"
  let ?new = "entries_of (snd (feed_line hp maps line)) h"
  have new: "?new = (if length ?old < 5 then ?old @ ?es else ?old)"
    by (rule feed_line_entries)
  have len: "length ?new \<le> 5"
    using Cons.prems line_entries_length [of hp h line] by (simp add: new)
  have "take 5 (?new @ r) = take 5 (?old @ ?es @ r)" for r
    using Cons.prems by (simp add: new)
  with Cons.IH [OF len] show ?case by simp
qed

lemma parse_feed_entries:
  "entries_of (snd (parse_feed hp text)) h = host_index_spec hp (split text [CHR 0x0A]) h"
  using feed_fold_entries [of "(Map.empty, Map.empty)" h hp "split text [CHR 0x0A]"]
  by (simp add: parse_feed_def host_index_spec_def entries_of_def)

lemma feed_fold_nonempty:
  "nonempty_index (snd maps) \<Longrightarrow> nonempty_index (snd (foldl (feed_line hp) maps lines))"
proof (induction lines arbitrary: maps)
  case Nil
  then show ?case by simp
next
  case (Cons line lines)
  have "nonempty_index (snd (feed_line hp maps line))"
    using Cons.prems
    by (auto simp: feed_line_record nonempty_index_def entries_of_def split: option.splits)
  then show ?case
    using Cons.IH by simp
qed

lemma parse_feed_nonempty: "nonempty_index (snd (parse_feed hp text))"
  unfolding parse_feed_def by (rule feed_fold_nonempty) (simp add: nonempty_index_def)

lemma parse_feed_bounded: "bounded_index (snd (parse_feed hp text))"
  unfolding bounded_index_def
proof (intro allI impI)
  fix h es
  assume "snd (parse_feed hp text) h = Some es"
  then have "es = host_index_spec hp (split text [CHR 0x0A]) h"
    using parse_feed_entries [of hp "text" h] by (simp add: entries_of_def)
  then show "length es \<le> 5" by (simp add: host_index_spec_def)
qed

lemma bounded_step: "bounded_index (hostMap (cache w)) \<Longrightarrow> bounded_index (hostMap (cache (step hp w ev)))"
proof (cases ev)
  case (Load now)
  assume "bounded_index (hostMap (cache w))"
  then show ?thesis by (simp add: Load load_cases split: option.splits)
next
  case (Settle p outcome now)
  assume "bounded_index (hostMap (cache w))"
  then show ?thesis
    using parse_feed_bounded
    by (auto simp: Settle fetchFeed_end_def fetchFeed_try_def
             split: sum.splits fetch_outcome.splits prod.splits)
       (metis snd_conv)
next
  case (Request address)
  assume "bounded_index (hostMap (cache w))"
  then show ?thesis by (simp add: Request)
qed

lemma bounded_run:
  "bounded_index (hostMap (cache w)) \<Longrightarrow> bounded_index (hostMap (cache (run hp w evs)))"
  unfolding run_def by (induction evs arbitrary: w) (simp_all add: bounded_step)

text \<open>C6: the host index a refresh builds gives each host that has a line in the feed the
  entries of its lines in the order of the feed, the first five of them and no more, and
  gives the other hosts nothing; and under every sequence of events the host lists of the
  cache have at most five entries.\<close>

theorem host_index_first_five:
  "(\<forall>h es. snd (parse_feed hp text) h = Some es \<longrightarrow>
      length es \<le> 5 \<and> es \<noteq> [] \<and> es = host_index_spec hp (split text [CHR 0x0A]) h)
   \<and> (\<forall>h. snd (parse_feed hp text) h = None \<longrightarrow> host_index_spec hp (split text [CHR 0x0A]) h = [])
   \<and> (\<forall>h es. hostMap (cache (run hp initial_runtime evs)) h = Some es \<longrightarrow> length es \<le> 5)"
proof -
  have "length es \<le> 5 \<and> es \<noteq> [] \<and> es = host_index_spec hp (split text [CHR 0x0A]) h"
    if "snd (parse_feed hp text) h = Some es" for h es
  proof -
    have "es = host_index_spec hp (split text [CHR 0x0A]) h"
      using parse_feed_entries [of hp "text" h] that by (simp add: entries_of_def)
    moreover from this have "length es \<le> 5"
      by (simp add: host_index_spec_def)
    moreover have "es \<noteq> []"
      using parse_feed_nonempty [of hp "text"] that by (auto simp: nonempty_index_def)
    ultimately show ?thesis by simp
  qed
  moreover have "host_index_spec hp (split text [CHR 0x0A]) h = []"
    if "snd (parse_feed hp text) h = None" for h
    using parse_feed_entries [of hp "text" h] that by (simp add: entries_of_def)
  moreover have "bounded_index (hostMap (cache (run hp initial_runtime evs)))"
    by (rule bounded_run) (simp add: bounded_index_def initial_runtime_def new_UrlhausCache_def)
  ultimately show ?thesis
    unfolding bounded_index_def by auto
qed

lemma example_feed_index:
  "snd (parse_feed ascii_domain example_feed) ''b.io''
   = Some [\<lparr>url = ''http://b.io/1'', threat = ''listed'', lastOnline = None\<rparr>,
           \<lparr>url = ''http://www.b.io/2'', threat = ''malware'', lastOnline = Some ''t''\<rparr>,
           \<lparr>url = ''http://b.io/3'', threat = ''listed'', lastOnline = None\<rparr>,
           \<lparr>url = ''http://b.io/4'', threat = ''listed'', lastOnline = None\<rparr>,
           \<lparr>url = ''http://b.io/5'', threat = ''listed'', lastOnline = None\<rparr>]"
  by code_simp

theorem host_index_first_five_witness:
  "snd (parse_feed ascii_domain example_feed) ''b.io''
   = Some [\<lparr>url = ''http://b.io/1'', threat = ''listed'', lastOnline = None\<rparr>,
           \<lparr>url = ''http://www.b.io/2'', threat = ''malware'', lastOnline = Some ''t''\<rparr>,
           \<lparr>url = ''http://b.io/3'', threat = ''listed'', lastOnline = None\<rparr>,
           \<lparr>url = ''http://b.io/4'', threat = ''listed'', lastOnline = None\<rparr>,
           \<lparr>url = ''http://b.io/5'', threat = ''listed'', lastOnline = None\<rparr>]
   \<and> [\<lparr>url = ''http://b.io/1'', threat = ''listed'', lastOnline = None\<rparr>,
      \<lparr>url = ''http://www.b.io/2'', threat = ''malware'', lastOnline = Some ''t''\<rparr>,
      \<lparr>url = ''http://b.io/3'', threat = ''listed'', lastOnline = None\<rparr>,
      \<lparr>url = ''http://b.io/4'', threat = ''listed'', lastOnline = None\<rparr>,
      \<lparr>url = ''http://b.io/5'', threat = ''listed'', lastOnline = None\<rparr>]
     = host_index_spec ascii_domain (split example_feed [CHR 0x0A]) ''b.io''"
  using host_index_first_five [of ascii_domain example_feed] example_feed_index
  by blast

text \<open>C10: a data line with at least three fields whose URL field normalizes puts one entry
  under the normalized URL into the URL map, and appends the same entry to the list of
  its host while that list has fewer than five entries. The \<^verbatim>\<open>threat\<close> of the entry is the
  sixth field, or \<^verbatim>\<open>listed\<close> when that field is missing or empty; its \<^verbatim>\<open>lastOnline\<close> is
  the fifth field, or \<^verbatim>\<open>null\<close> when that field is missing or empty.\<close>

theorem feed_entry_defaults:
  assumes "host_parser_ok hp"
    and "line \<noteq> []" and "\<not> startsWith line ''#''"
    and "parts = split (strip_quotes (js_trim line)) [CHR 0x22, CHR '','', CHR 0x22]"
    and "3 \<le> length parts"
    and "normalizeUrl hp (parts ! 2) = Some n"
    and "e = \<lparr>url = n,
              threat = (if length parts \<le> 5 \<or> parts ! 5 = [] then ''listed'' else parts ! 5),
              lastOnline = (if length parts \<le> 4 \<or> parts ! 4 = [] then None else Some (parts ! 4))\<rparr>"
  shows "fst (feed_line hp (um, hm) line) n = Some e
         \<and> (\<exists>u. new_URL hp n = Some u
               \<and> snd (feed_line hp (um, hm) line) (toLowerCase (strip_www (hostname u)))
                  = Some (if length (entries_of hm (toLowerCase (strip_www (hostname u)))) < 5
                          then entries_of hm (toLowerCase (strip_www (hostname u))) @ [e]
                          else entries_of hm (toLowerCase (strip_www (hostname u)))))"
proof -
  from normalizeUrl_form [OF assms(1,6)] obtain u where u: "new_URL hp n = Some u"
    by blast
  have e: "e = \<lparr>url = n, threat = or_string (at_index parts 5) ''listed'',
                lastOnline = or_null (at_index parts 4)\<rparr>"
    unfolding assms(7) by (auto simp: or_string_def or_null_def at_index_def)
  have "line_record hp line = Some (n, e, Some (toLowerCase (strip_www (hostname u))))"
    using assms(2,3,5,6) u
    by (simp add: line_record_def assms(4) [symmetric] e)
  then show ?thesis
    using u by (simp add: feed_line_record)
qed

lemma example_line_parts:
  "split (strip_quotes (js_trim ''\"2\",\"2020\",\"http://www.bad.example/b\"''))
     [CHR 0x22, CHR '','', CHR 0x22]
   = [''2'', ''2020'', ''http://www.bad.example/b'']"
  by code_simp

lemma example_line_url:
  "normalizeUrl ascii_domain ''http://www.bad.example/b'' = Some ''http://www.bad.example/b''"
  by code_simp

theorem feed_entry_defaults_witness:
  "host_parser_ok ascii_domain
   \<and> fst (feed_line ascii_domain (Map.empty, Map.empty) ''\"2\",\"2020\",\"http://www.bad.example/b\"'')
       ''http://www.bad.example/b''
     = Some \<lparr>url = ''http://www.bad.example/b'', threat = ''listed'', lastOnline = None\<rparr>"
proof -
  have "fst (feed_line ascii_domain (Map.empty, Map.empty) ''\"2\",\"2020\",\"http://www.bad.example/b\"'')
          ''http://www.bad.example/b''
        = Some \<lparr>url = ''http://www.bad.example/b'', threat = ''listed'', lastOnline = None\<rparr>"
    using feed_entry_defaults [OF ascii_domain_ok, of
        "''\"2\",\"2020\",\"http://www.bad.example/b\"''"
        "[''2'', ''2020'', ''http://www.bad.example/b'']" "''http://www.bad.example/b''"
        "\<lparr>url = ''http://www.bad.example/b'', threat = ''listed'', lastOnline = None\<rparr>"
        Map.empty Map.empty]
      example_line_parts example_line_url
    by (simp add: startsWith_def)
  with ascii_domain_ok show ?thesis by simp
qed

section \<open>check (C2)\<close>

lemma normalized_parses:
  assumes "host_parser_ok hp" "normalizeUrl hp x = Some n"
  obtains u where "new_URL hp n = Some u"
  using normalizeUrl_form [OF assms] by blast

text \<open>C2: when the URL normalizes, \<^verbatim>\<open>check\<close> gets as far as \<^verbatim>\<open>load\<close>, with the host key
  being the lowercase host name of the normalized URL without a leading \<^verbatim>\<open>www.\<close>; and
  from the snapshot \<^verbatim>\<open>load\<close> resolves to, it returns the match of the normalized URL in the
  URL map (tagged \<^verbatim>\<open>url\<close>) followed by the entries of the host key in the host map (tagged
  \<^verbatim>\<open>host\<close>), cut to the first five, with \<^verbatim>\<open>listed\<close> saying whether the list before the
  cut has an element.\<close>

theorem check_matches:
  assumes "host_parser_ok hp" and "normalizeUrl hp inputUrl = Some n"
  shows "\<exists>u key. new_URL hp n = Some u \<and> key = toLowerCase (strip_www (hostname u))
           \<and> check_begin hp w now inputUrl = (fst (load w now), Inr (n, key, snd (load w now)))
           \<and> (\<forall>um hm t. check_end n key (um, hm, t)
                 = \<lparr>source = ''URLHaus (online feed)'', refreshedAt = t,
                    listed = (combined_matches n key um hm \<noteq> []),
                    matches = take 5 (combined_matches n key um hm)\<rparr>)
           \<and> (\<forall>um hm t. length (matches (check_end n key (um, hm, t))) \<le> 5)
           \<and> (\<forall>r. check_settled (snd (check_begin hp w now inputUrl)) r
                 = (case await_loaded (snd (load w now)) r of
                      Inl err \<Rightarrow> Inl err
                    | Inr snap \<Rightarrow> Inr (check_end n key snap)))"
proof -
  obtain u where u: "new_URL hp n = Some u"
    using assms by (rule normalized_parses)
  have b: "check_begin hp w now inputUrl
           = (fst (load w now), Inr (n, toLowerCase (strip_www (hostname u)), snd (load w now)))"
    using assms(2) u by (simp add: check_begin_def Let_def split: prod.splits)
  have e: "check_end n key (um, hm, t)
           = \<lparr>source = ''URLHaus (online feed)'', refreshedAt = t,
              listed = (combined_matches n key um hm \<noteq> []),
              matches = take 5 (combined_matches n key um hm)\<rparr>" for key um hm t
    by (simp add: check_end_def combined_matches_def Let_def)
  have "length (matches (check_end n key (um, hm, t))) \<le> 5" for key um hm t
    unfolding e by simp
  then show ?thesis
    using u b e by (simp add: check_settled_def)
qed

lemma example_feed_url:
  "fst (parse_feed ascii_domain example_feed) ''http://b.io/1''
   = Some \<lparr>url = ''http://b.io/1'', threat = ''listed'', lastOnline = None\<rparr>"
  by code_simp

lemma example_url_normalized: "normalizeUrl ascii_domain ''HTTP://B.io/1'' = Some ''http://b.io/1''"
  by code_simp

lemma example_url_parsed:
  "map_option hostname (new_URL ascii_domain ''http://b.io/1'') = Some ''b.io''"
  by code_simp

theorem check_matches_witness:
  "host_parser_ok ascii_domain
   \<and> normalizeUrl ascii_domain ''HTTP://B.io/1'' = Some ''http://b.io/1''
   \<and> (\<exists>l. snd (check_begin ascii_domain initial_runtime 0 ''HTTP://B.io/1'')
            = Inr (''http://b.io/1'', ''b.io'', l))
   \<and> check_end ''http://b.io/1'' ''b.io''
        (fst (parse_feed ascii_domain example_feed), snd (parse_feed ascii_domain example_feed), 7)
      = \<lparr>source = ''URLHaus (online feed)'', refreshedAt = 7, listed = True,
         matches =
           [\<lparr>url = ''http://b.io/1'', threat = ''listed'', lastOnline = None, matchType = ''url''\<rparr>,
            \<lparr>url = ''http://b.io/1'', threat = ''listed'', lastOnline = None, matchType = ''host''\<rparr>,
            \<lparr>url = ''http://www.b.io/2'', threat = ''malware'', lastOnline = Some ''t'',
              matchType = ''host''\<rparr>,
            \<lparr>url = ''http://b.io/3'', threat = ''listed'', lastOnline = None, matchType = ''host''\<rparr>,
            \<lparr>url = ''http://b.io/4'', threat = ''listed'', lastOnline = None, matchType = ''host''\<rparr>]\<rparr>"
proof -
  from check_matches [OF ascii_domain_ok example_url_normalized, of initial_runtime 0]
  obtain u key where u: "new_URL ascii_domain ''http://b.io/1'' = Some u"
    and k: "key = toLowerCase (strip_www (hostname u))"
    and b: "check_begin ascii_domain initial_runtime 0 ''HTTP://B.io/1''
         = (fst (load initial_runtime 0), Inr (''http://b.io/1'', key, snd (load initial_runtime 0)))"
    and e: "\<And>um hm t. check_end ''http://b.io/1'' key (um, hm, t)
                 = \<lparr>source = ''URLHaus (online feed)'', refreshedAt = t,
                    listed = (combined_matches ''http://b.io/1'' key um hm \<noteq> []),
                    matches = take 5 (combined_matches ''http://b.io/1'' key um hm)\<rparr>"
    by blast
  have "hostname u = ''b.io''"
    using u example_url_parsed by simp
  moreover have "toLowerCase (strip_www ''b.io'') = ''b.io''"
    by code_simp
  ultimately have key: "key = ''b.io''"
    using k by simp
  show ?thesis
    using ascii_domain_ok example_url_normalized b
          e [of "fst (parse_feed ascii_domain example_feed)" "snd (parse_feed ascii_domain example_feed)" 7]
    by (simp add: key example_feed_url example_feed_index tag_def combined_matches_def)
qed

section \<open>checkPhishFeed (C8)\<close>

text \<open>C8: when the URL normalizes, \<^verbatim>\<open>checkPhishFeed\<close> issues one GET request, to the
  address of the API followed by the URI-encoded lowercase host name of the normalized URL
  (the host name as it is, a leading \<^verbatim>\<open>www.\<close> included). A response whose status is not
  a success status makes it fail; otherwise \<^verbatim>\<open>flagged\<close> says whether the body, trimmed and
  in lower case, is \<^verbatim>\<open>true\<close>.\<close>

theorem checkPhishFeed_request:
  assumes "host_parser_ok hp" and "normalizeUrl hp targetUrl = Some n"
  shows "\<exists>u. new_URL hp n = Some u
           \<and> checkPhishFeed_begin hp w targetUrl
              = (w\<lparr>requests := requests w @ [PHISH_API @ encodeURIComponent (toLowerCase (hostname u))]\<rparr>,
                 Inr ())
           \<and> (\<forall>status body. \<not> resp_ok status \<longrightarrow>
                 checkPhishFeed_end (Responded status body)
                 = Inl (Error (''phish.sinking.yachts responded with '' @ string_of_nat status)))
           \<and> (\<forall>status text. resp_ok status \<longrightarrow>
                 checkPhishFeed_end (Responded status (Inr text))
                 = Inr \<lparr>source = ''phish.sinking.yachts'',
                        flagged = (toLowerCase (js_trim text) = ''true'')\<rparr>)"
proof -
  obtain u where u: "new_URL hp n = Some u"
    using assms by (rule normalized_parses)
  then show ?thesis
    using assms(2) by (simp add: checkPhishFeed_begin_def checkPhishFeed_end_def)
qed

lemma www_url_normalized:
  "normalizeUrl ascii_domain ''HTTP://WWW.B.io/1'' = Some ''http://www.b.io/1''"
  by code_simp

lemma www_url_parsed:
  "map_option hostname (new_URL ascii_domain ''http://www.b.io/1'') = Some ''www.b.io''"
  by code_simp

lemma example_phish_request:
  "PHISH_API @ encodeURIComponent (toLowerCase ''www.b.io'')
   = ''https://phish.sinking.yachts/v2/check/www.b.io''"
  by code_simp

lemma example_phish_body: "toLowerCase (js_trim '' True '') = ''true''"
  by code_simp

theorem checkPhishFeed_request_witness:
  "host_parser_ok ascii_domain
   \<and> normalizeUrl ascii_domain ''HTTP://WWW.B.io/1'' = Some ''http://www.b.io/1''
   \<and> requests (fst (checkPhishFeed_begin ascii_domain initial_runtime ''HTTP://WWW.B.io/1''))
      = [''https://phish.sinking.yachts/v2/check/www.b.io'']
   \<and> resp_ok 200
   \<and> checkPhishFeed_end (Responded 200 (Inr '' True ''))
      = Inr \<lparr>source = ''phish.sinking.yachts'', flagged = True\<rparr>"
proof -
  from checkPhishFeed_request [OF ascii_domain_ok www_url_normalized, of initial_runtime]
  obtain u where u: "new_URL ascii_domain ''http://www.b.io/1'' = Some u"
    and b: "checkPhishFeed_begin ascii_domain initial_runtime ''HTTP://WWW.B.io/1''
         = (initial_runtime\<lparr>requests := requests initial_runtime
               @ [PHISH_API @ encodeURIComponent (toLowerCase (hostname u))]\<rparr>, Inr ())"
    and e: "\<forall>status text. resp_ok status \<longrightarrow>
                 checkPhishFeed_end (Responded status (Inr text))
                 = Inr \<lparr>source = ''phish.sinking.yachts'',
                        flagged = (toLowerCase (js_trim text) = ''true'')\<rparr>"
    by blast
  have h: "hostname u = ''www.b.io''"
    using u www_url_parsed by simp
  have ok: "resp_ok 200"
    by (simp add: resp_ok_def)
  show ?thesis
    using ascii_domain_ok www_url_normalized b e [rule_format, OF ok, of "'' True ''"] ok
    by (simp add: h example_phish_request example_phish_body initial_runtime_def)
qed

section \<open>inspectUrl (C5, C9)\<close>

text \<open>C9: when the input does not normalize, \<^verbatim>\<open>inspectUrl\<close> returns
  \<^verbatim>\<open>{ ok: false, error }\<close> before any \<^verbatim>\<open>await\<close>, and the runtime is as it was: no request
  has gone out and the cache has not been touched.\<close>

theorem inspectUrl_invalid:
  assumes "normalizeUrl hp rawUrl = None"
  shows "inspectUrl_begin hp w now rawUrl
           = (w, Returned (Invalid ''Enter a valid URL (example: https://example.com).''))
         \<and> inspectUrl hp w env rawUrl
           = (w, Inr (Invalid ''Enter a valid URL (example: https://example.com).''))
         \<and> requests (fst (inspectUrl hp w env rawUrl)) = requests w
         \<and> \<not> ok (Invalid ''Enter a valid URL (example: https://example.com).'')"
  using assms by (simp add: inspectUrl_def inspectUrl_begin_def inspectUrl_end_def)

lemma blank_invalid: "normalizeUrl ascii_domain ''   '' = None"
  by code_simp

theorem inspectUrl_invalid_witness:
  "normalizeUrl ascii_domain ''   '' = None
   \<and> inspectUrl_begin ascii_domain initial_runtime 0 ''   ''
       = (initial_runtime, Returned (Invalid ''Enter a valid URL (example: https://example.com).''))"
  using inspectUrl_invalid [OF blank_invalid, of initial_runtime 0] blank_invalid by simp

lemma inspectUrl_begin_valid:
  assumes "host_parser_ok hp" and "normalizeUrl hp rawUrl = Some n"
  shows "\<exists>u. new_URL hp n = Some u
           \<and> inspectUrl_begin hp w now rawUrl
              = (fst (check_begin hp (fst (checkPhishFeed_begin hp w n)) now n),
                 Waiting (toLowerCase (strip_www (hostname u))) n
                   (snd (checkPhishFeed_begin hp w n))
                   (snd (check_begin hp (fst (checkPhishFeed_begin hp w n)) now n)))"
proof -
  obtain u where u: "new_URL hp n = Some u"
    using assms by (rule normalized_parses)
  then show ?thesis
    using assms(2) by (simp add: inspectUrl_begin_def Let_def split: prod.splits)
qed

text \<open>C5: when the input normalizes, \<^verbatim>\<open>inspectUrl\<close> returns an \<^verbatim>\<open>ok: true\<close> report for the
  normalized URL, whatever the two checks come to: a check that succeeds gives its payload,
  a check that fails gives \<^verbatim>\<open>{ source, error }\<close> with the message of the failure. The
  report is \<^verbatim>\<open>ok: false\<close> only when the input does not normalize.\<close>

theorem inspectUrl_ok:
  assumes "host_parser_ok hp"
  shows "(\<forall>n. normalizeUrl hp rawUrl = Some n \<longrightarrow>
            (\<exists>u phish urlhaus.
               new_URL hp n = Some u
               \<and> snd (inspectUrl hp w env rawUrl)
                  = Inr (Inspected (toLowerCase (strip_www (hostname u))) n
                           (case phish of
                              Inr v \<Rightarrow> Payload v
                            | Inl reason \<Rightarrow> Failure ''phish.sinking.yachts'' (reason_message reason))
                           (case urlhaus of
                              Inr v \<Rightarrow> Payload v
                            | Inl reason \<Rightarrow> Failure ''URLHaus'' (reason_message reason))
                           (fetchedAt env))
               \<and> phish = checkPhishFeed_settled (snd (checkPhishFeed_begin hp w n)) (phishOutcome env)
               \<and> urlhaus = check_settled
                    (snd (check_begin hp (fst (checkPhishFeed_begin hp w n)) (calledAt env) n))
                    (refreshOutcome env)))
         \<and> (\<exists>r. snd (inspectUrl hp w env rawUrl) = Inr r \<and> (ok r \<longleftrightarrow> normalizeUrl hp rawUrl \<noteq> None))"
proof (cases "normalizeUrl hp rawUrl")
  case None
  then show ?thesis
    by (simp add: inspectUrl_def inspectUrl_begin_def inspectUrl_end_def)
next
  case (Some n)
  from inspectUrl_begin_valid [OF assms Some, of w "calledAt env"] obtain u where
    u: "new_URL hp n = Some u"
    and b: "inspectUrl_begin hp w (calledAt env) rawUrl
              = (fst (check_begin hp (fst (checkPhishFeed_begin hp w n)) (calledAt env) n),
                 Waiting (toLowerCase (strip_www (hostname u))) n
                   (snd (checkPhishFeed_begin hp w n))
                   (snd (check_begin hp (fst (checkPhishFeed_begin hp w n)) (calledAt env) n)))"
    by blast
  show ?thesis
    using Some u b
    by (simp add: inspectUrl_def inspectUrl_end_def source_of_def Let_def)
qed

lemma example_inspection:
  "snd (inspectUrl ascii_domain initial_runtime example_surroundings ''www.a.com'')
   = Inr (Inspected ''a.com'' ''https://www.a.com''
            (Failure ''phish.sinking.yachts'' ''timeout'')
            (Payload \<lparr>source = ''URLHaus (online feed)'', refreshedAt = 1700000000050,
                      listed = False, matches = []\<rparr>)
            1700000000100)"
  by code_simp

lemma example_inspection_url: "normalizeUrl ascii_domain ''www.a.com'' = Some ''https://www.a.com''"
  by code_simp

theorem inspectUrl_ok_witness:
  "host_parser_ok ascii_domain
   \<and> normalizeUrl ascii_domain ''www.a.com'' = Some ''https://www.a.com''
   \<and> (\<exists>r. snd (inspectUrl ascii_domain initial_runtime example_surroundings ''www.a.com'') = Inr r
          \<and> ok r
          \<and> r = Inspected ''a.com'' ''https://www.a.com''
                  (Failure ''phish.sinking.yachts'' ''timeout'')
                  (Payload \<lparr>source = ''URLHaus (online feed)'', refreshedAt = 1700000000050,
                            listed = False, matches = []\<rparr>)
                  1700000000100)"
proof -
  from inspectUrl_ok [OF ascii_domain_ok, of "''www.a.com''" initial_runtime example_surroundings]
  obtain r where
    "snd (inspectUrl ascii_domain initial_runtime example_surroundings ''www.a.com'') = Inr r"
    "ok r \<longleftrightarrow> normalizeUrl ascii_domain ''www.a.com'' \<noteq> None"
    by blast
  then show ?thesis
    using ascii_domain_ok example_inspection_url example_inspection by simp
qed

section \<open>inspectText (C7)\<close>

lemma foldl_set_add: "foldl set_add [] xs = first_occurrences xs \<and> set (foldl set_add [] xs) = set xs"
proof (induction xs rule: rev_induct)
  case Nil
  then show ?case by (simp add: first_occurrences_def)
next
  case (snoc x xs)
  then show ?case
    by (auto simp: first_occurrences_def set_add_def)
qed

lemma extract_fold:
  "foldl (\<lambda>found raw. case normalizeUrl hp raw of None \<Rightarrow> found | Some n \<Rightarrow> set_add found n) acc raws
   = foldl set_add acc (List.map_filter (normalizeUrl hp) raws)"
  by (induction raws arbitrary: acc) (simp_all add: List.map_filter_simps split: option.splits)

lemma extract_first_occurrences:
  "extractUrlsFromText hp text = first_occurrences (normalized_matches hp text)"
proof (cases "text = []")
  case True
  then show ?thesis
    by (simp add: extractUrlsFromText_def normalized_matches_def matchAll_def first_occurrences_def
                  List.map_filter_simps)
next
  case False
  then show ?thesis
    by (simp add: extractUrlsFromText_def normalized_matches_def extract_fold foldl_set_add)
qed

lemma set_map_filter: "set (List.map_filter f xs) = {y. \<exists>x\<in>set xs. f x = Some y}"
  by (induction xs) (auto simp: List.map_filter_simps split: option.splits)

lemma first_occurrences_set: "distinct (first_occurrences xs) \<and> set (first_occurrences xs) = set xs"
  by (simp add: first_occurrences_def)

lemma inspectUrl_snd:
  "snd (inspectUrl hp w env u) = inspectUrl_end (snd (inspectUrl_begin hp w (calledAt env) u)) env"
  by (simp add: inspectUrl_def split: prod.splits)

lemma inspect_all_results:
  "\<exists>ws. length ws = length us
        \<and> length (snd (inspect_all hp w envs k us)) = length us
        \<and> (\<forall>i<length us. snd (inspect_all hp w envs k us) ! i
               = guarded (us ! i) (snd (inspectUrl hp (ws ! i) (envs (k + i)) (us ! i))))"
proof (induction us arbitrary: w k)
  case Nil
  then show ?case by simp
next
  case (Cons u us)
  define w1 where "w1 = fst (inspectUrl_begin hp w (calledAt (envs k)) u)"
  from Cons [of w1 "Suc k"] obtain ws where
    ws: "length ws = length us" "length (snd (inspect_all hp w1 envs (Suc k) us)) = length us"
    "\<forall>i<length us. snd (inspect_all hp w1 envs (Suc k) us) ! i
               = guarded (us ! i) (snd (inspectUrl hp (ws ! i) (envs (Suc k + i)) (us ! i)))"
    by blast
  have s: "snd (inspect_all hp w envs k (u # us))
           = guarded u (snd (inspectUrl hp w (envs k) u)) # snd (inspect_all hp w1 envs (Suc k) us)"
    by (simp add: inspectUrl_snd w1_def split: prod.splits)
  have "\<forall>i<length (u # us). snd (inspect_all hp w envs k (u # us)) ! i
               = guarded ((u # us) ! i) (snd (inspectUrl hp ((w # ws) ! i) (envs (k + i)) ((u # us) ! i)))"
  proof (intro allI impI)
    fix i assume "i < length (u # us)"
    then show "snd (inspect_all hp w envs k (u # us)) ! i
               = guarded ((u # us) ! i) (snd (inspectUrl hp ((w # ws) ! i) (envs (k + i)) ((u # us) ! i)))"
      using ws(3) unfolding s by (cases i) simp_all
  qed
  moreover have "length (w # ws) = length (u # us)"
    "length (snd (inspect_all hp w envs k (u # us))) = length (u # us)"
    using ws(1,2) unfolding s by simp_all
  ultimately show ?case by blast
qed

text \<open>C7: \<^verbatim>\<open>found\<close> is the number of distinct normalized URLs among the matches of the
  text; the extracted URLs are these in the order of their first occurrence; \<^verbatim>\<open>urls\<close> has
  one entry for each of the first six of them, in that order, each the guarded result of
  \<^verbatim>\<open>inspectUrl\<close> on its URL (in the state the runtime has when the call begins); and
  \<^verbatim>\<open>truncated\<close> says whether more than six were found.\<close>

theorem inspectText_counts:
  "(let r = snd (inspectText hp w envs text); extracted = extractUrlsFromText hp text in
      extracted = first_occurrences (normalized_matches hp text)
      \<and> distinct extracted
      \<and> found r = length extracted
      \<and> found r = card {n. \<exists>raw\<in>set (matchAll text). normalizeUrl hp raw = Some n}
      \<and> length (urls r) = min 6 (found r)
      \<and> (truncated r \<longleftrightarrow> 6 < found r)
      \<and> ok_text r
      \<and> (\<exists>ws. length ws = length (urls r)
             \<and> (\<forall>i<length (urls r).
                   urls r ! i
                   = guarded (extracted ! i) (snd (inspectUrl hp (ws ! i) (envs i) (extracted ! i))))))"
proof -
  define extracted where "extracted = extractUrlsFromText hp text"
  define r where "r = snd (inspectText hp w envs text)"
  have e: "extracted = first_occurrences (normalized_matches hp text)"
    unfolding extracted_def by (rule extract_first_occurrences)
  have d: "distinct extracted"
    unfolding e by (simp add: first_occurrences_set)
  have "set extracted = {n. \<exists>raw\<in>set (matchAll text). normalizeUrl hp raw = Some n}"
    unfolding e by (simp add: first_occurrences_set normalized_matches_def set_map_filter)
  then have c: "length extracted = card {n. \<exists>raw\<in>set (matchAll text). normalizeUrl hp raw = Some n}"
    using d distinct_card by fastforce
  have r: "r = \<lparr>ok_text = True, urls = snd (inspect_all hp w envs 0 (take 6 extracted)),
               truncated = (length (take 6 extracted) < length extracted), found = length extracted\<rparr>"
    by (simp add: r_def inspectText_def extracted_def MAX_TEXT_URLS_def Let_def split: prod.splits)
  from inspect_all_results [of "take 6 extracted" hp w envs 0] obtain ws where
    ws: "length ws = length (take 6 extracted)"
    "length (snd (inspect_all hp w envs 0 (take 6 extracted))) = length (take 6 extracted)"
    "\<forall>i<length (take 6 extracted). snd (inspect_all hp w envs 0 (take 6 extracted)) ! i
        = guarded (take 6 extracted ! i) (snd (inspectUrl hp (ws ! i) (envs (0 + i)) (take 6 extracted ! i)))"
    by blast
  have "\<exists>ws. length ws = length (urls r)
             \<and> (\<forall>i<length (urls r).
                   urls r ! i
                   = guarded (extracted ! i) (snd (inspectUrl hp (ws ! i) (envs i) (extracted ! i))))"
    using ws by (intro exI [of _ ws]) (simp add: r)
  then show ?thesis
    unfolding Let_def extracted_def [symmetric] r_def [symmetric]
    using e d c ws(2) by (auto simp: r)
qed

lemma example_text_extracted:
  "extractUrlsFromText ascii_domain example_text
   = [''https://www.a.io'', ''http://b.io'', ''https://www.c.io'', ''https://www.d.io'',
      ''https://www.e.io'', ''https://www.f.io'', ''https://www.g.io'']"
  by code_simp

theorem inspectText_counts_witness:
  "found (snd (inspectText ascii_domain initial_runtime (\<lambda>i. example_surroundings) example_text)) = 7
   \<and> length (urls (snd (inspectText ascii_domain initial_runtime (\<lambda>i. example_surroundings) example_text))) = 6
   \<and> truncated (snd (inspectText ascii_domain initial_runtime (\<lambda>i. example_surroundings) example_text))"
  using inspectText_counts [of ascii_domain initial_runtime "\<lambda>i. example_surroundings" example_text]
  by (simp add: Let_def example_text_extracted)

end
